theory Spec2Isabelle
  imports Main "HOL-Library.Multiset"
begin

section \<open>The binary heap of structure/heap/heap.go\<close>

text \<open>
  The Go type \<^verbatim>\<open>Heap[T]\<close> is a struct with a slice \<^verbatim>\<open>heaps\<close> and a comparator
  \<^verbatim>\<open>lessFunc\<close>. Its methods mutate the receiver; here every method takes the heap and
  returns the updated heap. A run-time panic (the explicit \<^verbatim>\<open>panic\<close> of \<^verbatim>\<open>Top\<close>, or an
  index outside the slice) is the left summand of the result. A heap value is one built by
  the constructors, which never store a \<^verbatim>\<open>nil\<close> comparator, so \<open>lessFunc\<close> is a total
  function; only the argument of \<^verbatim>\<open>NewAny\<close> can be \<^verbatim>\<open>nil\<close>.

  Indices are natural numbers: every call site of the package passes a non-negative
  \<^verbatim>\<open>int\<close>, and \<^verbatim>\<open>2*index+2\<close> stays far below the 64-bit limit for every slice that fits
  in memory, so no wrap-around is modelled. The element type of \<^verbatim>\<open>New\<close> is
  \<^verbatim>\<open>constraints.Ordered\<close>: any type with the operator \<^verbatim>\<open><\<close>. It is modelled as
  the type class \<open>ord\<close>, which demands the operator and no law of it, since the
  floating-point types are among the ordered types and their \<^verbatim>\<open><\<close> is not a linear
  order (NaN compares false with every value).
\<close>

subsection \<open>Data\<close>

datatype error = ErrorString string

datatype panic = PanicString string | IndexOutOfRange

record 'a Heap =
  heaps :: "'a list"
  lessFunc :: "'a \<Rightarrow> 'a \<Rightarrow> bool"

subsection \<open>Constructors\<close>

text \<open>
  \<^verbatim>\<open>NewAny\<close> returns the Go pair \<^verbatim>\<open>(*Heap[T], error)\<close>: a \<^verbatim>\<open>nil\<close> pointer or a
  \<^verbatim>\<open>nil\<close> error is \<open>None\<close>. The argument is a function value that may be \<^verbatim>\<open>nil\<close>.
\<close>

definition NewAny :: "('a \<Rightarrow> 'a \<Rightarrow> bool) option \<Rightarrow> 'a Heap option \<times> error option" where
  "NewAny less' =
     (case less' of
        None \<Rightarrow> (None, Some (ErrorString ''less function is required to define heap ordering''))
      | Some f \<Rightarrow> (Some \<lparr>heaps = [], lessFunc = f\<rparr>, None))"

definition New :: "('a::ord) Heap option" where
  "New = (let defaultLess = (\<lambda>a b. a < b);
              (h, _) = NewAny (Some defaultLess)
          in h)"

subsection \<open>Queries\<close>

definition Empty :: "'a Heap \<Rightarrow> bool" where
  "Empty h = (length (heaps h) = 0)"

definition Size :: "'a Heap \<Rightarrow> int" where
  "Size h = int (length (heaps h))"

definition Top :: "'a Heap \<Rightarrow> panic + 'a" where
  "Top h =
     (if Empty h then Inl (PanicString ''cannot retrieve top element from an empty heap'')
      else Inr (heaps h ! 0))"

subsection \<open>Swapping and sifting\<close>

definition swap :: "'a Heap \<Rightarrow> nat \<Rightarrow> nat \<Rightarrow> panic + 'a Heap" where
  "swap h i j =
     (if i < length (heaps h) \<and> j < length (heaps h)
      then Inr (h\<lparr>heaps := (heaps h)[i := heaps h ! j, j := heaps h ! i]\<rparr>)
      else Inl IndexOutOfRange)"

function up :: "'a Heap \<Rightarrow> nat \<Rightarrow> panic + 'a Heap" where
  "up h index =
     (if index \<le> 0 then Inr h
      else
        let parent = (index - 1) div 2 in
        if length (heaps h) \<le> index then Inl IndexOutOfRange
        else if lessFunc h (heaps h ! index) (heaps h ! parent)
        then (case swap h index parent of
                Inl e \<Rightarrow> Inl e
              | Inr h' \<Rightarrow> up h' parent)
        else Inr h)"
  by pat_completeness auto
termination
  by (relation "measure (\<lambda>(h, index). index)") auto

declare up.simps [simp del]

function down :: "'a Heap \<Rightarrow> nat \<Rightarrow> panic + 'a Heap" where
  "down h index =
     (let smallest = index;
          left = 2 * index + 1;
          right = 2 * index + 2;
          smallest = (if left < length (heaps h)
                         \<and> lessFunc h (heaps h ! left) (heaps h ! smallest)
                      then left else smallest);
          smallest = (if right < length (heaps h)
                         \<and> lessFunc h (heaps h ! right) (heaps h ! smallest)
                      then right else smallest)
      in if smallest \<noteq> index
         then (case swap h index smallest of
                 Inl e \<Rightarrow> Inl e
               | Inr h' \<Rightarrow> down h' smallest)
         else Inr h)"
  by pat_completeness auto
termination
  by (relation "measure (\<lambda>(h, index). length (heaps h) - index)")
     (auto simp: swap_def split: if_splits)

declare down.simps [simp del]

subsection \<open>Push and Pop\<close>

definition Push :: "'a Heap \<Rightarrow> 'a \<Rightarrow> panic + 'a Heap" where
  "Push h element =
     (let h = h\<lparr>heaps := heaps h @ [element]\<rparr>
      in up h (length (heaps h) - 1))"

definition Pop :: "'a Heap \<Rightarrow> panic + 'a Heap" where
  "Pop h =
     (if Empty h then Inr h
      else
        case swap h 0 (length (heaps h) - 1) of
          Inl e \<Rightarrow> Inl e
        | Inr h \<Rightarrow>
            let h = h\<lparr>heaps := take (length (heaps h) - 1) (heaps h)\<rparr>
            in if length (heaps h) > 0 then down h 0 else Inr h)"

subsection \<open>Sequences of calls\<close>

text \<open>
  A client program is a list of calls; a panic ends the run, as it ends the Go program.
\<close>

datatype 'a call = PushCall 'a | PopCall

fun apply_call :: "'a Heap \<Rightarrow> 'a call \<Rightarrow> panic + 'a Heap" where
  "apply_call h (PushCall x) = Push h x"
| "apply_call h PopCall = Pop h"

fun run_calls :: "'a Heap \<Rightarrow> 'a call list \<Rightarrow> panic + 'a Heap" where
  "run_calls h [] = Inr h"
| "run_calls h (c # cs) =
     (case apply_call h c of
        Inl e \<Rightarrow> Inl e
      | Inr h' \<Rightarrow> run_calls h' cs)"

text \<open>
  Reading the top and popping, \<open>n\<close> times in a row; the values read are collected in
  the order they were read.
\<close>

fun top_pop_n :: "nat \<Rightarrow> 'a Heap \<Rightarrow> panic + 'a list" where
  "top_pop_n 0 h = Inr []"
| "top_pop_n (Suc n) h =
     (case Top h of
        Inl e \<Rightarrow> Inl e
      | Inr x \<Rightarrow>
          (case Pop h of
             Inl e \<Rightarrow> Inl e
           | Inr h' \<Rightarrow>
               (case top_pop_n n h' of
                  Inl e \<Rightarrow> Inl e
                | Inr xs \<Rightarrow> Inr (x # xs))))"

text \<open>
  Counting the calls of a run: the Push calls, and the Pop calls that found the storage
  non-empty (the state before each call is the one the run itself produces).
\<close>

fun pushes :: "'a call list \<Rightarrow> nat" where
  "pushes [] = 0"
| "pushes (PushCall x # cs) = Suc (pushes cs)"
| "pushes (PopCall # cs) = pushes cs"

fun pops_on_nonempty :: "'a Heap \<Rightarrow> 'a call list \<Rightarrow> nat" where
  "pops_on_nonempty h [] = 0"
| "pops_on_nonempty h (c # cs) =
     (case c of PopCall \<Rightarrow> (if Empty h then 0 else 1) | PushCall x \<Rightarrow> 0)
     + (case apply_call h c of
          Inl e \<Rightarrow> 0
        | Inr h' \<Rightarrow> pops_on_nonempty h' cs)"

text \<open>
  A predicate a client can pass to \<^verbatim>\<open>NewAny\<close>: \<open>a\<close> is a proper divisor of \<open>b\<close>.
  It is irreflexive and transitive, but incomparability is not transitive.
\<close>

definition proper_divisor :: "nat \<Rightarrow> nat \<Rightarrow> bool" where
  "proper_divisor a b = (a dvd b \<and> a \<noteq> b)"

text \<open>
  An element type a client can pass to \<^verbatim>\<open>New\<close>: \<^verbatim>\<open>float64\<close>, as far as its
  comparison operators see it. \<open>NaN\<close> compares false with every value, itself included;
  the finite values are represented by the whole numbers among them, compared as numbers.
\<close>

datatype float64 = NaN | Finite int

instantiation float64 :: ord
begin

fun less_float64 :: "float64 \<Rightarrow> float64 \<Rightarrow> bool" where
  "less_float64 (Finite a) (Finite b) = (a < b)"
| "less_float64 NaN y = False"
| "less_float64 x NaN = False"

fun less_eq_float64 :: "float64 \<Rightarrow> float64 \<Rightarrow> bool" where
  "less_eq_float64 (Finite a) (Finite b) = (a \<le> b)"
| "less_eq_float64 NaN y = False"
| "less_eq_float64 x NaN = False"

instance ..

end

section \<open>Properties of the storage\<close>

text \<open>
  The heap property, as the specification words it: no child strictly precedes its parent.
  The children of index \<open>i\<close> are \<open>2 * i + 1\<close> and \<open>2 * i + 2\<close>.
\<close>

abbreviation parent_index :: "nat \<Rightarrow> nat" where
  "parent_index c \<equiv> (c - 1) div 2"

definition heap_property :: "('a \<Rightarrow> 'a \<Rightarrow> bool) \<Rightarrow> 'a list \<Rightarrow> bool" where
  "heap_property less' xs =
     (\<forall>i \<in> {0..<length xs}. \<forall>c \<in> {2 * i + 1, 2 * i + 2}.
        c < length xs \<longrightarrow> \<not> less' (xs ! c) (xs ! i))"

text \<open>
  The orderings for which a binary heap works: strict weak orderings.
\<close>

definition strict_weak_order :: "('a \<Rightarrow> 'a \<Rightarrow> bool) \<Rightarrow> bool" where
  "strict_weak_order less' \<longleftrightarrow>
     (\<forall>a. \<not> less' a a)
     \<and> (\<forall>a b c. less' a b \<longrightarrow> less' b c \<longrightarrow> less' a c)
     \<and> (\<forall>a b c. \<not> less' a b \<longrightarrow> \<not> less' b c \<longrightarrow> \<not> less' a c)"

text \<open>
  The same laws demanded only of the values of a set: the predicate is a strict weak
  ordering among them, whatever it does elsewhere.
\<close>

definition strict_weak_order_on :: "'a set \<Rightarrow> ('a \<Rightarrow> 'a \<Rightarrow> bool) \<Rightarrow> bool" where
  "strict_weak_order_on A less' \<longleftrightarrow>
     (\<forall>a \<in> A. \<not> less' a a)
     \<and> (\<forall>a \<in> A. \<forall>b \<in> A. \<forall>c \<in> A. less' a b \<longrightarrow> less' b c \<longrightarrow> less' a c)
     \<and> (\<forall>a \<in> A. \<forall>b \<in> A. \<forall>c \<in> A. \<not> less' a b \<longrightarrow> \<not> less' b c \<longrightarrow> \<not> less' a c)"

text \<open>
  The invariants of the two sifting walks. During \<^verbatim>\<open>up\<close> from \<open>k\<close> every node but
  \<open>k\<close> respects its parent, and the children of \<open>k\<close> respect the parent of \<open>k\<close>;
  during \<^verbatim>\<open>down\<close> from \<open>k\<close> every node respects its parent except the children of
  \<open>k\<close>, which respect the parent of \<open>k\<close>.
\<close>

definition up_inv :: "('a \<Rightarrow> 'a \<Rightarrow> bool) \<Rightarrow> 'a list \<Rightarrow> nat \<Rightarrow> bool" where
  "up_inv less' xs k \<longleftrightarrow>
     (\<forall>c. 0 < c \<and> c < length xs \<and> c \<noteq> k \<longrightarrow> \<not> less' (xs ! c) (xs ! parent_index c))
     \<and> (\<forall>c. 0 < c \<and> c < length xs \<and> parent_index c = k \<and> 0 < k
            \<longrightarrow> \<not> less' (xs ! c) (xs ! parent_index k))"

definition down_inv :: "('a \<Rightarrow> 'a \<Rightarrow> bool) \<Rightarrow> 'a list \<Rightarrow> nat \<Rightarrow> bool" where
  "down_inv less' xs k \<longleftrightarrow>
     (\<forall>c. 0 < c \<and> c < length xs \<and> parent_index c \<noteq> k \<longrightarrow> \<not> less' (xs ! c) (xs ! parent_index c))
     \<and> (\<forall>c. 0 < c \<and> c < length xs \<and> parent_index c = k \<and> 0 < k
            \<longrightarrow> \<not> less' (xs ! c) (xs ! parent_index k))"

abbreviation swapped :: "'a Heap \<Rightarrow> nat \<Rightarrow> nat \<Rightarrow> 'a Heap" where
  "swapped h i j \<equiv> h\<lparr>heaps := (heaps h)[i := heaps h ! j, j := heaps h ! i]\<rparr>"

text \<open>The storage that Pop hands to down: the last element moved to the root.\<close>

abbreviation popped :: "'a Heap \<Rightarrow> 'a Heap" where
  "popped h \<equiv> h\<lparr>heaps := take (length (heaps h) - 1)
                  ((heaps h)[0 := heaps h ! (length (heaps h) - 1),
                             length (heaps h) - 1 := heaps h ! 0])\<rparr>"

section \<open>Lemmas on the storage\<close>

lemma heap_property_parent:
  "heap_property less' xs \<longleftrightarrow>
     (\<forall>c. 0 < c \<and> c < length xs \<longrightarrow> \<not> less' (xs ! c) (xs ! parent_index c))"
proof
  assume hp: "heap_property less' xs"
  show "\<forall>c. 0 < c \<and> c < length xs \<longrightarrow> \<not> less' (xs ! c) (xs ! parent_index c)"
  proof (intro allI impI)
    fix c assume c: "0 < c \<and> c < length xs"
    define i where "i = parent_index c"
    have ci: "c = 2 * i + 1 \<or> c = 2 * i + 2" using c unfolding i_def by presburger
    have "i < length xs" using c unfolding i_def by arith
    then have "i \<in> {0..<length xs}" by simp
    with hp have "\<forall>d \<in> {2 * i + 1, 2 * i + 2}. d < length xs \<longrightarrow> \<not> less' (xs ! d) (xs ! i)"
      unfolding heap_property_def by blast
    with ci c have "\<not> less' (xs ! c) (xs ! i)" by blast
    then show "\<not> less' (xs ! c) (xs ! parent_index c)" by (simp add: i_def)
  qed
next
  assume r: "\<forall>c. 0 < c \<and> c < length xs \<longrightarrow> \<not> less' (xs ! c) (xs ! parent_index c)"
  show "heap_property less' xs"
    unfolding heap_property_def
  proof (intro ballI impI)
    fix i c assume "i \<in> {0..<length xs}" "c \<in> {2 * i + 1, 2 * i + 2}" "c < length xs"
    then have "0 < c" "parent_index c = i" by auto
    with r \<open>c < length xs\<close> show "\<not> less' (xs ! c) (xs ! i)" by metis
  qed
qed

lemma up_inv_step:
  assumes swo: "strict_weak_order less'"
    and inv: "up_inv less' xs k"
    and k: "0 < k" "k < length xs"
    and lt: "less' (xs ! k) (xs ! parent_index k)"
  shows "up_inv less' (xs[k := xs ! parent_index k, parent_index k := xs ! k]) (parent_index k)"
proof -
  define p where "p = parent_index k"
  define ys where "ys = xs[k := xs ! p, p := xs ! k]"
  have pk: "p < k" using k by (simp add: p_def)
  have yk: "ys ! k = xs ! p" using pk k by (simp add: ys_def)
  have yp: "ys ! p = xs ! k" using pk k by (simp add: ys_def)
  have yo: "\<And>j. j \<noteq> k \<Longrightarrow> j \<noteq> p \<Longrightarrow> ys ! j = xs ! j" by (simp add: ys_def)
  have len: "length ys = length xs" by (simp add: ys_def)
  have irr: "\<And>a. \<not> less' a a"
    and tr: "\<And>a b c. less' a b \<Longrightarrow> less' b c \<Longrightarrow> less' a c"
    and ntr: "\<And>a b c. \<not> less' a b \<Longrightarrow> \<not> less' b c \<Longrightarrow> \<not> less' a c"
    using swo unfolding strict_weak_order_def by blast+
  have inv1: "\<And>c. 0 < c \<Longrightarrow> c < length xs \<Longrightarrow> c \<noteq> k \<Longrightarrow> \<not> less' (xs ! c) (xs ! parent_index c)"
    and inv2: "\<And>c. 0 < c \<Longrightarrow> c < length xs \<Longrightarrow> parent_index c = k \<Longrightarrow> \<not> less' (xs ! c) (xs ! p)"
    using inv k unfolding up_inv_def p_def by blast+
  have lt': "less' (xs ! k) (xs ! p)" using lt by (simp add: p_def)
  have A: "\<not> less' (ys ! c) (ys ! parent_index c)" if c: "0 < c" "c < length ys" "c \<noteq> p" for c
  proof -
    consider "c = k" | "c \<noteq> k" "parent_index c = k" | "c \<noteq> k" "parent_index c = p"
      | "c \<noteq> k" "parent_index c \<noteq> k" "parent_index c \<noteq> p" by blast
    then show ?thesis
    proof cases
      case 1
      then show ?thesis using yk yp lt' irr tr p_def by metis
    next
      case 2
      then have "ys ! c = xs ! c" using yo c by simp
      then show ?thesis using 2 yk inv2 c len by simp
    next
      case 3
      then have "ys ! c = xs ! c" using yo c by simp
      moreover have "\<not> less' (xs ! c) (xs ! p)" using inv1 [of c] c 3 len by simp
      ultimately show ?thesis using 3 yp lt' tr by metis
    next
      case 4
      then have "ys ! c = xs ! c" "ys ! parent_index c = xs ! parent_index c" using yo c by simp_all
      then show ?thesis using inv1 [of c] c 4 len by simp
    qed
  qed
  have B: "\<not> less' (ys ! c) (ys ! parent_index p)"
    if c: "0 < c" "c < length ys" "parent_index c = p" "0 < p" for c
  proof -
    have pp: "parent_index p < p" using c by simp
    then have ypp: "ys ! parent_index p = xs ! parent_index p" using yo pk by simp
    have g: "\<not> less' (xs ! p) (xs ! parent_index p)" using inv1 [of p] c pk k by simp
    show ?thesis
    proof (cases "c = k")
      case True
      then show ?thesis using yk ypp g by simp
    next
      case False
      moreover have "c \<noteq> p" using c by auto
      ultimately have "ys ! c = xs ! c" using yo by simp
      moreover have "\<not> less' (xs ! c) (xs ! p)" using inv1 [of c] c False len by simp
      ultimately show ?thesis using ypp g ntr by metis
    qed
  qed
  show ?thesis
    unfolding up_inv_def using A B by (fold p_def, fold ys_def) blast
qed

lemma down_inv_step:
  assumes swo: "strict_weak_order less'"
    and inv: "down_inv less' xs k"
    and m: "m < length xs" "m = 2 * k + 1 \<or> m = 2 * k + 2"
    and lt: "less' (xs ! m) (xs ! k)"
    and other: "\<And>c. c < length xs \<Longrightarrow> c = 2 * k + 1 \<or> c = 2 * k + 2
                  \<Longrightarrow> \<not> less' (xs ! c) (xs ! m)"
  shows "down_inv less' (xs[k := xs ! m, m := xs ! k]) m"
proof -
  define ys where "ys = xs[k := xs ! m, m := xs ! k]"
  have km: "k < m" "parent_index m = k" using m by auto
  have yk: "ys ! k = xs ! m" using km m by (simp add: ys_def)
  have ym: "ys ! m = xs ! k" using km m by (simp add: ys_def)
  have yo: "\<And>j. j \<noteq> k \<Longrightarrow> j \<noteq> m \<Longrightarrow> ys ! j = xs ! j" by (simp add: ys_def)
  have len: "length ys = length xs" by (simp add: ys_def)
  have irr: "\<And>a. \<not> less' a a"
    and tr: "\<And>a b c. less' a b \<Longrightarrow> less' b c \<Longrightarrow> less' a c"
    using swo unfolding strict_weak_order_def by blast+
  have inv1: "\<And>c. 0 < c \<Longrightarrow> c < length xs \<Longrightarrow> parent_index c \<noteq> k
                \<Longrightarrow> \<not> less' (xs ! c) (xs ! parent_index c)"
    and inv2: "\<And>c. 0 < c \<Longrightarrow> c < length xs \<Longrightarrow> parent_index c = k \<Longrightarrow> 0 < k
                \<Longrightarrow> \<not> less' (xs ! c) (xs ! parent_index k)"
    using inv unfolding down_inv_def by blast+
  have A: "\<not> less' (ys ! c) (ys ! parent_index c)"
    if c: "0 < c" "c < length ys" "parent_index c \<noteq> m" for c
  proof -
    consider "c = m" | "c \<noteq> m" "parent_index c = k" | "c = k" 
      | "c \<noteq> m" "c \<noteq> k" "parent_index c \<noteq> k" by blast
    then show ?thesis
    proof cases
      case 1
      then show ?thesis using km yk ym lt irr tr by metis
    next
      case 2
      then have ck: "c = 2 * k + 1 \<or> c = 2 * k + 2" using c by presburger
      then have "c \<noteq> k" by auto
      then have "ys ! c = xs ! c" using yo 2 by simp
      then show ?thesis using other [of c] ck c len 2 yk by simp
    next
      case 3
      then have pk: "parent_index k < k" using c by simp
      then have "ys ! parent_index k = xs ! parent_index k" using yo km by simp
      then show ?thesis using 3 yk inv2 [of m] km m c by simp
    next
      case 4
      then have "ys ! c = xs ! c" "ys ! parent_index c = xs ! parent_index c"
        using yo c by simp_all
      then show ?thesis using inv1 [of c] c 4 len by simp
    qed
  qed
  have B: "\<not> less' (ys ! c) (ys ! parent_index m)"
    if c: "0 < c" "c < length ys" "parent_index c = m" for c
  proof -
    have "m < c" using c by arith
    then have "ys ! c = xs ! c" using yo km by simp
    moreover have "\<not> less' (xs ! c) (xs ! m)" using inv1 [of c] c km len by simp
    ultimately show ?thesis using km yk by simp
  qed
  show ?thesis
    unfolding down_inv_def using A B by (fold ys_def) blast
qed

lemma down_inv_stop:
  assumes inv: "down_inv less' xs k"
    and l: "2 * k + 1 < length xs \<Longrightarrow> \<not> less' (xs ! (2 * k + 1)) (xs ! k)"
    and r: "2 * k + 2 < length xs \<Longrightarrow> \<not> less' (xs ! (2 * k + 2)) (xs ! k)"
  shows "heap_property less' xs"
  unfolding heap_property_parent
proof (intro allI impI)
  fix c assume c: "0 < c \<and> c < length xs"
  show "\<not> less' (xs ! c) (xs ! parent_index c)"
  proof (cases "parent_index c = k")
    case True
    then have "c = 2 * k + 1 \<or> c = 2 * k + 2" using c by presburger
    then show ?thesis using l r c True by auto
  next
    case False
    then show ?thesis using inv c unfolding down_inv_def by blast
  qed
qed

lemma up_inv_stop:
  assumes inv: "up_inv less' xs k"
    and s: "0 < k \<Longrightarrow> k < length xs \<Longrightarrow> \<not> less' (xs ! k) (xs ! parent_index k)"
  shows "heap_property less' xs"
  unfolding heap_property_parent
  using inv s unfolding up_inv_def by metis

section \<open>Lemmas on swapping and sifting\<close>

lemma swap_in_range:
  "i < length (heaps h) \<Longrightarrow> j < length (heaps h) \<Longrightarrow> swap h i j = Inr (swapped h i j)"
  by (simp add: swap_def)

lemma mset_swapped:
  "i < length (heaps h) \<Longrightarrow> j < length (heaps h) \<Longrightarrow>
     mset (heaps (swapped h i j)) = mset (heaps h)"
  using mset_swap [of j "heaps h" i] by simp

lemma up_zero: "up h 0 = Inr h"
  by (simp add: up.simps)

lemma up_stop:
  "0 < index \<Longrightarrow> index < length (heaps h) \<Longrightarrow>
   \<not> lessFunc h (heaps h ! index) (heaps h ! parent_index index) \<Longrightarrow> up h index = Inr h"
  by (simp add: up.simps)

lemma up_go:
  "0 < index \<Longrightarrow> index < length (heaps h) \<Longrightarrow>
   lessFunc h (heaps h ! index) (heaps h ! parent_index index) \<Longrightarrow>
   up h index = up (swapped h index (parent_index index)) (parent_index index)"
proof -
  assume a: "0 < index" "index < length (heaps h)"
    "lessFunc h (heaps h ! index) (heaps h ! parent_index index)"
  then have "parent_index index < length (heaps h)" by arith
  then have "swap h index (parent_index index) = Inr (swapped h index (parent_index index))"
    using a swap_in_range by blast
  then show ?thesis using a by (subst up.simps) (simp add: Let_def)
qed

lemma up_returns:
  "index < length (heaps h) \<Longrightarrow>
     \<exists>h'. up h index = Inr h' \<and> lessFunc h' = lessFunc h \<and> mset (heaps h') = mset (heaps h)"
proof (induction index arbitrary: h rule: less_induct)
  case (less index)
  show ?case
  proof (cases "0 < index \<and> lessFunc h (heaps h ! index) (heaps h ! parent_index index)")
    case False
    then show ?thesis using less.prems up_zero [of h] up_stop [of index h] by (cases "index = 0") auto
  next
    case True
    define p where "p = parent_index index"
    define h1 where "h1 = swapped h index p"
    have p: "p < index" using True unfolding p_def by arith
    have eq: "up h index = up h1 p" using True less.prems up_go unfolding h1_def p_def by blast
    have "p < length (heaps h1)" using p less.prems by (simp add: h1_def)
    from less.IH [OF p this] obtain h' where
      h': "up h1 p = Inr h'" "lessFunc h' = lessFunc h1" "mset (heaps h') = mset (heaps h1)"
      by blast
    have "mset (heaps h1) = mset (heaps h)"
      unfolding h1_def using mset_swapped [of index h p] p less.prems by simp
    moreover have "lessFunc h1 = lessFunc h" by (simp add: h1_def)
    ultimately show ?thesis using eq h' by simp
  qed
qed

lemma up_heap_property:
  "strict_weak_order (lessFunc h) \<Longrightarrow> index < length (heaps h) \<Longrightarrow>
   up_inv (lessFunc h) (heaps h) index \<Longrightarrow> up h index = Inr h' \<Longrightarrow>
   heap_property (lessFunc h) (heaps h')"
proof (induction index arbitrary: h rule: less_induct)
  case (less index)
  show ?case
  proof (cases "0 < index \<and> lessFunc h (heaps h ! index) (heaps h ! parent_index index)")
    case False
    then have "up h index = Inr h"
      using less.prems up_zero [of h] up_stop [of index h] by (cases "index = 0") auto
    then have "h' = h" using less.prems by simp
    then show ?thesis using up_inv_stop [OF less.prems(3)] False by blast
  next
    case True
    define p where "p = parent_index index"
    define h1 where "h1 = swapped h index p"
    have p: "p < index" using True unfolding p_def by arith
    have eq: "up h index = up h1 p" using True less.prems up_go unfolding h1_def p_def by blast
    have 1: "p < length (heaps h1)" using p less.prems by (simp add: h1_def)
    have 2: "lessFunc h1 = lessFunc h" by (simp add: h1_def)
    have 3: "up_inv (lessFunc h1) (heaps h1) p"
      using up_inv_step [OF less.prems(1) less.prems(3) _ less.prems(2)] True
      by (simp add: h1_def p_def)
    show ?thesis using less.IH [OF p _ 1 3] less.prems eq 2 by simp
  qed
qed

lemma down_stop:
  assumes "2 * k + 1 < length (heaps h) \<Longrightarrow> \<not> lessFunc h (heaps h ! (2 * k + 1)) (heaps h ! k)"
    and "2 * k + 2 < length (heaps h) \<Longrightarrow> \<not> lessFunc h (heaps h ! (2 * k + 2)) (heaps h ! k)"
  shows "down h k = Inr h"
  using assms by (subst down.simps) (auto simp: Let_def)

lemma down_left:
  assumes "2 * k + 1 < length (heaps h)"
    and "lessFunc h (heaps h ! (2 * k + 1)) (heaps h ! k)"
    and "2 * k + 2 < length (heaps h) \<Longrightarrow>
           \<not> lessFunc h (heaps h ! (2 * k + 2)) (heaps h ! (2 * k + 1))"
  shows "down h k = down (swapped h k (2 * k + 1)) (2 * k + 1)"
proof -
  have "swap h k (2 * k + 1) = Inr (swapped h k (2 * k + 1))"
    using assms(1) by (intro swap_in_range) simp_all
  then show ?thesis using assms by (subst down.simps) (auto simp: Let_def)
qed

lemma down_right_after_left:
  assumes "2 * k + 2 < length (heaps h)"
    and "lessFunc h (heaps h ! (2 * k + 1)) (heaps h ! k)"
    and "lessFunc h (heaps h ! (2 * k + 2)) (heaps h ! (2 * k + 1))"
  shows "down h k = down (swapped h k (2 * k + 2)) (2 * k + 2)"
proof -
  have "swap h k (2 * k + 2) = Inr (swapped h k (2 * k + 2))"
    using assms(1) by (intro swap_in_range) simp_all
  then show ?thesis using assms by (subst down.simps) (auto simp: Let_def)
qed

lemma down_right_only:
  assumes "2 * k + 2 < length (heaps h)"
    and "\<not> lessFunc h (heaps h ! (2 * k + 1)) (heaps h ! k)"
    and "lessFunc h (heaps h ! (2 * k + 2)) (heaps h ! k)"
  shows "down h k = down (swapped h k (2 * k + 2)) (2 * k + 2)"
proof -
  have "swap h k (2 * k + 2) = Inr (swapped h k (2 * k + 2))"
    using assms(1) by (intro swap_in_range) simp_all
  then show ?thesis using assms by (subst down.simps) (auto simp: Let_def)
qed

lemma down_cases:
  obtains (stop) "down h k = Inr h"
      "2 * k + 1 < length (heaps h) \<Longrightarrow> \<not> lessFunc h (heaps h ! (2 * k + 1)) (heaps h ! k)"
      "2 * k + 2 < length (heaps h) \<Longrightarrow> \<not> lessFunc h (heaps h ! (2 * k + 2)) (heaps h ! k)"
  | (left) "down h k = down (swapped h k (2 * k + 1)) (2 * k + 1)"
      "2 * k + 1 < length (heaps h)"
      "lessFunc h (heaps h ! (2 * k + 1)) (heaps h ! k)"
      "2 * k + 2 < length (heaps h) \<Longrightarrow>
         \<not> lessFunc h (heaps h ! (2 * k + 2)) (heaps h ! (2 * k + 1))"
  | (right_left) "down h k = down (swapped h k (2 * k + 2)) (2 * k + 2)"
      "2 * k + 2 < length (heaps h)"
      "lessFunc h (heaps h ! (2 * k + 1)) (heaps h ! k)"
      "lessFunc h (heaps h ! (2 * k + 2)) (heaps h ! (2 * k + 1))"
  | (right) "down h k = down (swapped h k (2 * k + 2)) (2 * k + 2)"
      "2 * k + 2 < length (heaps h)"
      "\<not> lessFunc h (heaps h ! (2 * k + 1)) (heaps h ! k)"
      "lessFunc h (heaps h ! (2 * k + 2)) (heaps h ! k)"
proof -
  let ?n = "length (heaps h)"
  let ?L = "2 * k + 1 < ?n \<and> lessFunc h (heaps h ! (2 * k + 1)) (heaps h ! k)"
  show thesis
  proof (cases ?L)
    case True
    show thesis
    proof (cases "2 * k + 2 < ?n \<and> lessFunc h (heaps h ! (2 * k + 2)) (heaps h ! (2 * k + 1))")
      case True
      then show thesis using \<open>?L\<close> right_left down_right_after_left by blast
    next
      case False
      then show thesis using \<open>?L\<close> left down_left by blast
    qed
  next
    case nl: False
    show thesis
    proof (cases "2 * k + 2 < ?n \<and> lessFunc h (heaps h ! (2 * k + 2)) (heaps h ! k)")
      case True
      moreover have "2 * k + 1 < ?n" using True by simp
      ultimately show thesis using nl right down_right_only by blast
    next
      case False
      then show thesis using nl stop down_stop by blast
    qed
  qed
qed

lemma down_returns:
  "\<exists>h'. down h k = Inr h' \<and> lessFunc h' = lessFunc h \<and> mset (heaps h') = mset (heaps h)"
proof (induction "length (heaps h) - k" arbitrary: h k rule: less_induct)
  case less
  have step: "\<exists>h'. down (swapped h k m) m = Inr h' \<and> lessFunc h' = lessFunc h
                 \<and> mset (heaps h') = mset (heaps h)"
    if m: "m < length (heaps h)" "k < m" for m
  proof -
    have "length (heaps (swapped h k m)) - m < length (heaps h) - k" using m by simp
    from less [OF this] obtain h' where
      "down (swapped h k m) m = Inr h'" "lessFunc h' = lessFunc (swapped h k m)"
      "mset (heaps h') = mset (heaps (swapped h k m))" by blast
    moreover have "mset (heaps (swapped h k m)) = mset (heaps h)"
      using mset_swapped [of k h m] m by simp
    ultimately show ?thesis by simp
  qed
  show ?case
  proof (cases h k rule: down_cases)
    case stop
    then show ?thesis by simp
  next
    case left
    then show ?thesis using step [of "2 * k + 1"] by simp
  next
    case right_left
    then show ?thesis using step [of "2 * k + 2"] by simp
  next
    case right
    then show ?thesis using step [of "2 * k + 2"] by simp
  qed
qed

lemma down_heap_property:
  "strict_weak_order (lessFunc h) \<Longrightarrow> down_inv (lessFunc h) (heaps h) k \<Longrightarrow>
   down h k = Inr h' \<Longrightarrow> heap_property (lessFunc h) (heaps h')"
proof (induction "length (heaps h) - k" arbitrary: h k rule: less_induct)
  case less
  note swo = less.prems(1) and inv = less.prems(2) and res = less.prems(3)
  have irr: "\<And>a. \<not> lessFunc h a a"
    and tr: "\<And>a b c. lessFunc h a b \<Longrightarrow> lessFunc h b c \<Longrightarrow> lessFunc h a c"
    using swo unfolding strict_weak_order_def by blast+
  have step: "heap_property (lessFunc h) (heaps h')"
    if m: "m < length (heaps h)" "m = 2 * k + 1 \<or> m = 2 * k + 2"
      and lt: "lessFunc h (heaps h ! m) (heaps h ! k)"
      and other: "\<And>c. c < length (heaps h) \<Longrightarrow> c = 2 * k + 1 \<or> c = 2 * k + 2
                    \<Longrightarrow> \<not> lessFunc h (heaps h ! c) (heaps h ! m)"
      and eq: "down h k = down (swapped h k m) m" for m
  proof -
    have 1: "length (heaps (swapped h k m)) - m < length (heaps h) - k" using m by auto
    have 2: "down_inv (lessFunc (swapped h k m)) (heaps (swapped h k m)) m"
      using down_inv_step [OF swo inv m lt other] by simp
    have 3: "strict_weak_order (lessFunc (swapped h k m))" using swo by simp
    have "down (swapped h k m) m = Inr h'" using eq res by simp
    from less.hyps [OF 1 3 2 this] show ?thesis by simp
  qed
  show ?case
  proof (cases h k rule: down_cases)
    case stop
    then have "h' = h" using res by simp
    then show ?thesis using down_inv_stop [OF inv] stop by blast
  next
    case left
    show ?thesis
    proof (rule step [of "2 * k + 1"])
      fix c assume "c < length (heaps h)" "c = 2 * k + 1 \<or> c = 2 * k + 2"
      then show "\<not> lessFunc h (heaps h ! c) (heaps h ! (2 * k + 1))"
        using left irr by auto
    qed (use left in simp_all)
  next
    case right_left
    show ?thesis
    proof (rule step [of "2 * k + 2"])
      show "lessFunc h (heaps h ! (2 * k + 2)) (heaps h ! k)"
        using right_left tr by blast
      fix c assume "c < length (heaps h)" "c = 2 * k + 1 \<or> c = 2 * k + 2"
      then show "\<not> lessFunc h (heaps h ! c) (heaps h ! (2 * k + 2))"
        using right_left irr tr by blast
    qed (use right_left in simp_all)
  next
    case right
    show ?thesis
    proof (rule step [of "2 * k + 2"])
      fix c assume "c < length (heaps h)" "c = 2 * k + 1 \<or> c = 2 * k + 2"
      then show "\<not> lessFunc h (heaps h ! c) (heaps h ! (2 * k + 2))"
        using right irr tr by blast
    qed (use right in simp_all)
  qed
qed

section \<open>Lemmas on Push, Pop and runs\<close>

lemma heap_root_minimal:
  assumes swo: "strict_weak_order less'" and hp: "heap_property less' xs"
    and i: "i < length xs"
  shows "\<not> less' (xs ! i) (xs ! 0)"
  using i
proof (induction i rule: less_induct)
  case (less i)
  have irr: "\<And>a. \<not> less' a a"
    and ntr: "\<And>a b c. \<not> less' a b \<Longrightarrow> \<not> less' b c \<Longrightarrow> \<not> less' a c"
    using swo unfolding strict_weak_order_def by blast+
  show ?case
  proof (cases "i = 0")
    case True
    then show ?thesis using irr by simp
  next
    case False
    then have p: "parent_index i < i" by arith
    have "\<not> less' (xs ! i) (xs ! parent_index i)"
      using hp False less.prems unfolding heap_property_parent by simp
    moreover have "\<not> less' (xs ! parent_index i) (xs ! 0)"
      using less.IH [OF p] p less.prems by simp
    ultimately show ?thesis using ntr by blast
  qed
qed

lemma Push_returns:
  "\<exists>h'. Push h x = Inr h' \<and> lessFunc h' = lessFunc h
        \<and> mset (heaps h') = add_mset x (mset (heaps h))"
proof -
  define h1 where "h1 = h\<lparr>heaps := heaps h @ [x]\<rparr>"
  have eq: "Push h x = up h1 (length (heaps h1) - 1)" by (simp add: Push_def h1_def Let_def)
  have "length (heaps h1) - 1 < length (heaps h1)" by (simp add: h1_def)
  from up_returns [OF this] obtain h' where
    "up h1 (length (heaps h1) - 1) = Inr h'" "lessFunc h' = lessFunc h1"
    "mset (heaps h') = mset (heaps h1)" by blast
  then show ?thesis using eq by (simp add: h1_def)
qed

lemma Push_heap_property:
  assumes swo: "strict_weak_order (lessFunc h)"
    and hp: "heap_property (lessFunc h) (heaps h)"
    and res: "Push h x = Inr h'"
  shows "heap_property (lessFunc h) (heaps h')"
proof -
  define h1 where "h1 = h\<lparr>heaps := heaps h @ [x]\<rparr>"
  let ?n = "length (heaps h)"
  have eq: "Push h x = up h1 ?n" by (simp add: Push_def h1_def Let_def)
  have inv: "up_inv (lessFunc h1) (heaps h1) ?n"
    unfolding up_inv_def
  proof (intro conjI allI impI)
    fix c assume c: "0 < c \<and> c < length (heaps h1) \<and> c \<noteq> ?n"
    then have "c < ?n" by (simp add: h1_def)
    moreover from this have "parent_index c < ?n" by arith
    ultimately show "\<not> lessFunc h1 (heaps h1 ! c) (heaps h1 ! parent_index c)"
      using hp c unfolding heap_property_parent by (simp add: h1_def nth_append)
  next
    fix c assume c: "0 < c \<and> c < length (heaps h1) \<and> parent_index c = ?n \<and> 0 < ?n"
    then have "c \<le> ?n" by (simp add: h1_def)
    moreover have "parent_index c < c" using c by arith
    ultimately have False using c by simp
    then show "\<not> lessFunc h1 (heaps h1 ! c) (heaps h1 ! parent_index ?n)" ..
  qed
  have "strict_weak_order (lessFunc h1)" "?n < length (heaps h1)"
    using swo by (simp_all add: h1_def)
  from up_heap_property [OF this inv] res eq show ?thesis by (simp add: h1_def)
qed

lemma Pop_empty: "Empty h \<Longrightarrow> Pop h = Inr h"
  by (simp add: Pop_def)

lemma Pop_nonempty:
  assumes "\<not> Empty h"
  shows "Pop h = (if length (heaps h) > 1 then down (popped h) 0 else Inr (popped h))"
proof -
  have "swap h 0 (length (heaps h) - 1) = Inr (swapped h 0 (length (heaps h) - 1))"
    using assms by (intro swap_in_range) (simp_all add: Empty_def)
  then show ?thesis using assms by (auto simp: Pop_def Let_def Empty_def)
qed

lemma mset_popped:
  assumes "\<not> Empty h"
  shows "add_mset (heaps h ! 0) (mset (heaps (popped h))) = mset (heaps h)"
proof -
  let ?n = "length (heaps h)"
  define zs where "zs = (heaps h)[0 := heaps h ! (?n - 1), ?n - 1 := heaps h ! 0]"
  have n: "0 < ?n" using assms by (simp add: Empty_def)
  have len: "length zs = ?n" by (simp add: zs_def)
  have last: "zs ! (?n - 1) = heaps h ! 0" using n by (simp add: zs_def)
  have "take (?n - 1) zs @ [zs ! (?n - 1)] = zs"
    using n len by (metis Suc_pred' lessI take_Suc_conv_app_nth take_all order_refl)
  then have "mset zs = add_mset (zs ! (?n - 1)) (mset (take (?n - 1) zs))"
    by (metis mset.simps(2) mset_append union_mset_add_mset_right add.right_neutral mset.simps(1))
  moreover have "mset zs = mset (heaps h)"
    unfolding zs_def using mset_swap [of "?n - 1" "heaps h" 0] n by simp
  ultimately show ?thesis using last by (simp add: zs_def)
qed

lemma Pop_returns:
  assumes "\<not> Empty h"
  shows "\<exists>h'. Pop h = Inr h' \<and> lessFunc h' = lessFunc h
          \<and> add_mset (heaps h ! 0) (mset (heaps h')) = mset (heaps h)"
proof (cases "length (heaps h) > 1")
  case True
  obtain h' where "down (popped h) 0 = Inr h'" "lessFunc h' = lessFunc (popped h)"
    "mset (heaps h') = mset (heaps (popped h))"
    using down_returns [of "popped h" 0] by blast
  then show ?thesis using Pop_nonempty [OF assms] True mset_popped [OF assms] by simp
next
  case False
  then show ?thesis using Pop_nonempty [OF assms] mset_popped [OF assms] by simp
qed

lemma Pop_heap_property:
  assumes swo: "strict_weak_order (lessFunc h)"
    and hp: "heap_property (lessFunc h) (heaps h)"
    and res: "Pop h = Inr h'"
  shows "heap_property (lessFunc h) (heaps h')"
proof (cases "Empty h")
  case True
  then show ?thesis using res hp by (simp add: Pop_empty)
next
  case ne: False
  let ?n = "length (heaps h)"
  have n: "0 < ?n" using ne by (simp add: Empty_def)
  have nth: "heaps (popped h) ! c = heaps h ! c" if "0 < c" "c < ?n - 1" for c
    using that by simp
  have inv: "down_inv (lessFunc (popped h)) (heaps (popped h)) 0"
    unfolding down_inv_def
  proof (intro conjI allI impI)
    fix c assume c: "0 < c \<and> c < length (heaps (popped h)) \<and> parent_index c \<noteq> 0"
    then have c': "0 < c" "c < ?n - 1" "0 < parent_index c" by simp_all
    then have "parent_index c < ?n - 1" by arith
    then show "\<not> lessFunc (popped h) (heaps (popped h) ! c) (heaps (popped h) ! parent_index c)"
      using hp c' nth unfolding heap_property_parent by simp
  qed simp
  show ?thesis
  proof (cases "?n > 1")
    case True
    then have "down (popped h) 0 = Inr h'" using Pop_nonempty [OF ne] res by simp
    from down_heap_property [OF _ inv this] swo show ?thesis by simp
  next
    case False
    then have "heaps h' = []" using Pop_nonempty [OF ne] res by auto
    then show ?thesis by (simp add: heap_property_def)
  qed
qed

lemma Push_size:
  assumes "Push h x = Inr h'"
  shows "length (heaps h') = Suc (length (heaps h))"
proof -
  from Push_returns [of h x] assms
  have "mset (heaps h') = add_mset x (mset (heaps h))" by auto
  then have "size (mset (heaps h')) = size (add_mset x (mset (heaps h)))" by simp
  then show ?thesis by simp
qed

lemma Pop_size:
  assumes "\<not> Empty h" "Pop h = Inr h'"
  shows "Suc (length (heaps h')) = length (heaps h)"
proof -
  from Pop_returns [OF assms(1)] assms(2)
  have "add_mset (heaps h ! 0) (mset (heaps h')) = mset (heaps h)" by auto
  then have "size (add_mset (heaps h ! 0) (mset (heaps h'))) = size (mset (heaps h))" by simp
  then show ?thesis by simp
qed

lemma apply_call_returns:
  "\<exists>h'. apply_call h c = Inr h' \<and> lessFunc h' = lessFunc h"
proof (cases c)
  case (PushCall x)
  then show ?thesis using Push_returns [of h x] by auto
next
  case PopCall
  then show ?thesis using Pop_returns [of h] Pop_empty [of h] by (cases "Empty h") auto
qed

lemma apply_call_heap_property:
  "strict_weak_order (lessFunc h) \<Longrightarrow> heap_property (lessFunc h) (heaps h) \<Longrightarrow>
   apply_call h c = Inr h' \<Longrightarrow> heap_property (lessFunc h) (heaps h')"
  by (cases c) (auto intro: Push_heap_property Pop_heap_property)

lemma run_calls_heap_property:
  "strict_weak_order (lessFunc h) \<Longrightarrow> heap_property (lessFunc h) (heaps h) \<Longrightarrow>
   \<exists>h'. run_calls h cs = Inr h' \<and> lessFunc h' = lessFunc h
        \<and> heap_property (lessFunc h) (heaps h')"
proof (induction cs arbitrary: h)
  case Nil
  then show ?case by simp
next
  case (Cons c cs)
  obtain h1 where h1: "apply_call h c = Inr h1" "lessFunc h1 = lessFunc h"
    using apply_call_returns by blast
  have "heap_property (lessFunc h1) (heaps h1)"
    using apply_call_heap_property [OF Cons.prems h1(1)] h1(2) by simp
  moreover have "strict_weak_order (lessFunc h1)" using Cons.prems h1 by simp
  ultimately obtain h' where "run_calls h1 cs = Inr h'" "lessFunc h' = lessFunc h1"
    "heap_property (lessFunc h1) (heaps h')" using Cons.IH by blast
  then show ?case using h1 by simp
qed

lemma run_calls_size:
  "\<exists>h'. run_calls h cs = Inr h'
        \<and> Size h' = Size h + int (pushes cs) - int (pops_on_nonempty h cs)"
proof (induction cs arbitrary: h)
  case Nil
  then show ?case by simp
next
  case (Cons c cs)
  obtain h1 where h1: "apply_call h c = Inr h1"
    using apply_call_returns by blast
  from Cons.IH [of h1] obtain h' where h': "run_calls h1 cs = Inr h'"
    "Size h' = Size h1 + int (pushes cs) - int (pops_on_nonempty h1 cs)" by blast
  show ?case
  proof (cases c)
    case (PushCall x)
    then have "Size h1 = Size h + 1" using h1 Push_size [of h x h1] by (simp add: Size_def)
    then show ?thesis using h1 h' PushCall by simp
  next
    case PopCall
    show ?thesis
    proof (cases "Empty h")
      case True
      then have "h1 = h" using h1 PopCall Pop_empty [of h] by simp
      then show ?thesis using h1 h' PopCall True by simp
    next
      case False
      then have "Size h1 = Size h - 1"
        using h1 PopCall Pop_size [of h h1] by (simp add: Size_def)
      then show ?thesis using h1 h' PopCall False by simp
    qed
  qed
qed

lemma NewAny_Some:
  "fst (NewAny (Some f)) = Some h0 \<Longrightarrow> heaps h0 = [] \<and> lessFunc h0 = f"
  by (auto simp: NewAny_def)

lemma heap_property_Nil: "heap_property f []"
  by (simp add: heap_property_def)

lemma strict_weak_order_linorder: "strict_weak_order (\<lambda>a b. a < (b :: 'a :: linorder))"
  unfolding strict_weak_order_def by auto

lemma top_pop_n_sorted:
  "strict_weak_order (lessFunc h) \<Longrightarrow> heap_property (lessFunc h) (heaps h) \<Longrightarrow>
   n = length (heaps h) \<Longrightarrow>
   \<exists>ys. top_pop_n n h = Inr ys \<and> mset ys = mset (heaps h)
        \<and> sorted_wrt (\<lambda>a b. \<not> lessFunc h b a) ys"
proof (induction n arbitrary: h)
  case 0
  then show ?case by simp
next
  case (Suc n)
  have ne: "\<not> Empty h" using Suc.prems by (auto simp: Empty_def)
  then have top: "Top h = Inr (heaps h ! 0)" by (simp add: Top_def)
  obtain h1 where h1: "Pop h = Inr h1" "lessFunc h1 = lessFunc h"
    "add_mset (heaps h ! 0) (mset (heaps h1)) = mset (heaps h)"
    using Pop_returns [OF ne] by blast
  have hp1: "heap_property (lessFunc h1) (heaps h1)"
    using Pop_heap_property [OF Suc.prems(1,2) h1(1)] h1(2) by simp
  have "n = length (heaps h1)" using Pop_size [OF ne h1(1)] Suc.prems by simp
  with Suc.IH [of h1] hp1 h1 Suc.prems obtain ys where ys: "top_pop_n n h1 = Inr ys"
    "mset ys = mset (heaps h1)" "sorted_wrt (\<lambda>a b. \<not> lessFunc h b a) ys" by auto
  have "\<not> lessFunc h y (heaps h ! 0)" if "y \<in> set ys" for y
  proof -
    have "y \<in># mset (heaps h1)" using that ys(2) by (metis set_mset_mset)
    then have "y \<in># mset (heaps h)" using h1(3) by (metis insert_iff set_mset_add_mset_insert)
    then have "y \<in> set (heaps h)" by simp
    then obtain i where "i < length (heaps h)" "heaps h ! i = y" by (auto simp: in_set_conv_nth)
    then show ?thesis using heap_root_minimal [OF Suc.prems(1,2)] by blast
  qed
  then have "sorted_wrt (\<lambda>a b. \<not> lessFunc h b a) (heaps h ! 0 # ys)" using ys(3) by simp
  moreover have "mset (heaps h ! 0 # ys) = mset (heaps h)" using ys(2) h1(3) by simp
  ultimately show ?case using top h1(1) ys(1) by simp
qed

lemma run_pushes_mset:
  "\<exists>h'. run_calls h (map PushCall xs) = Inr h' \<and> mset (heaps h') = mset (heaps h) + mset xs"
proof (induction xs arbitrary: h)
  case Nil
  then show ?case by simp
next
  case (Cons x xs)
  obtain h1 where h1: "Push h x = Inr h1" "mset (heaps h1) = add_mset x (mset (heaps h))"
    using Push_returns [of h x] by blast
  from Cons.IH [of h1] obtain h' where
    "run_calls h1 (map PushCall xs) = Inr h'" "mset (heaps h') = mset (heaps h1) + mset xs"
    by blast
  then show ?case using h1 by simp
qed

lemma down_below_untouched:
  "down h k = Inr h' \<Longrightarrow> j < k \<Longrightarrow> heaps h' ! j = heaps h ! j"
proof (induction "length (heaps h) - k" arbitrary: h k rule: less_induct)
  case less
  have step: "heaps h' ! j = heaps h ! j"
    if m: "m < length (heaps h)" "k < m" and eq: "down h k = down (swapped h k m) m" for m
  proof -
    have 1: "length (heaps (swapped h k m)) - m < length (heaps h) - k" using m by simp
    have 2: "down (swapped h k m) m = Inr h'" using eq less.prems by simp
    have "j < m" using m less.prems by simp
    from less.hyps [OF 1 2 this] show ?thesis using m less.prems by simp
  qed
  show ?case
  proof (cases h k rule: down_cases)
    case stop
    then show ?thesis using less.prems by simp
  next
    case left
    then show ?thesis using step [of "2 * k + 1"] by simp
  next
    case right_left
    then show ?thesis using step [of "2 * k + 2"] by simp
  next
    case right
    then show ?thesis using step [of "2 * k + 2"] by simp
  qed
qed

lemma down_moves_child_up:
  assumes "m < length (heaps h)" "k < m" "down h k = down (swapped h k m) m"
  shows "\<exists>h'. down h k = Inr h' \<and> heaps h' ! k = heaps h ! m"
proof -
  obtain h' where h': "down (swapped h k m) m = Inr h'"
    using down_returns [of "swapped h k m" m] by blast
  from down_below_untouched [OF h' assms(2)] assms
  have "heaps h' ! k = heaps h ! m" by simp
  then show ?thesis using h' assms(3) by simp
qed

text \<open>
  The predicate \<open>proper_divisor\<close> is irreflexive and transitive: a strict partial
  order. It is not a strict weak ordering (2 and 9 are incomparable, 9 and 6 are
  incomparable, yet 2 precedes 6).
\<close>

lemma proper_divisor_partial_order:
  "\<not> proper_divisor a a"
  "proper_divisor a b \<Longrightarrow> proper_divisor b c \<Longrightarrow> proper_divisor a c"
  unfolding proper_divisor_def
  by (auto dest: dvd_trans dvd_antisym)

section \<open>Independence of the predicate outside the stored values\<close>

text \<open>
  The heap consults the predicate only on stored values: two predicates that agree on the
  values in the storage (and on the value pushed) drive every operation alike. A predicate
  that is a strict weak ordering among the pushed values can therefore be replaced by one
  that is a strict weak ordering everywhere.
\<close>

lemma set_swapped:
  "i < length (heaps h) \<Longrightarrow> j < length (heaps h) \<Longrightarrow>
     set (heaps (swapped h i j)) = set (heaps h)"
proof -
  assume "i < length (heaps h)" "j < length (heaps h)"
  then have "mset (heaps (swapped h i j)) = mset (heaps h)" by (rule mset_swapped)
  then show ?thesis by (rule mset_eq_setD)
qed

lemma swapped_lessFunc_update:
  "swapped (h\<lparr>lessFunc := g\<rparr>) i j = (swapped h i j)\<lparr>lessFunc := g\<rparr>"
  by simp

lemma up_cong:
  assumes "\<And>a b. a \<in> set (heaps h) \<Longrightarrow> b \<in> set (heaps h) \<Longrightarrow> g a b = lessFunc h a b"
    and "index < length (heaps h)"
    and "up h index = Inr h'"
  shows "up (h\<lparr>lessFunc := g\<rparr>) index = Inr (h'\<lparr>lessFunc := g\<rparr>)"
  using assms
proof (induction index arbitrary: h rule: less_induct)
  case (less index)
  let ?hg = "h\<lparr>lessFunc := g\<rparr>"
  show ?case
  proof (cases "index = 0")
    case True
    then show ?thesis using up_zero [of h] up_zero [of ?hg] less.prems(3) by simp
  next
    case False
    define p where "p = parent_index index"
    have p: "p < index" using False unfolding p_def by arith
    have mem: "heaps h ! index \<in> set (heaps h)" "heaps h ! p \<in> set (heaps h)"
      using p less.prems(2) by simp_all
    have agree: "g (heaps h ! index) (heaps h ! p) = lessFunc h (heaps h ! index) (heaps h ! p)"
      using less.prems(1) mem by blast
    show ?thesis
    proof (cases "lessFunc h (heaps h ! index) (heaps h ! p)")
      case stop: False
      have "up h index = Inr h" using up_stop [of index h] stop False less.prems(2) p_def by simp
      moreover have "up ?hg index = Inr ?hg"
        using up_stop [of index ?hg] stop agree False less.prems(2) p_def by simp
      ultimately show ?thesis using less.prems(3) by simp
    next
      case go: True
      define h1 where "h1 = swapped h index p"
      have 1: "up h index = up h1 p"
        using up_go [of index h] go False less.prems(2) unfolding h1_def p_def by simp
      have "up ?hg index = up (swapped ?hg index p) p"
        using up_go [of index ?hg] go agree False less.prems(2) unfolding p_def by simp
      then have 2: "up ?hg index = up (h1\<lparr>lessFunc := g\<rparr>) p"
        unfolding swapped_lessFunc_update h1_def .
      have s: "set (heaps h1) = set (heaps h)"
        unfolding h1_def using set_swapped [of index h p] p less.prems(2) by simp
      have l: "lessFunc h1 = lessFunc h" by (simp add: h1_def)
      have 3: "p < length (heaps h1)" using p less.prems(2) by (simp add: h1_def)
      have 4: "up h1 p = Inr h'" using 1 less.prems(3) by simp
      have "up (h1\<lparr>lessFunc := g\<rparr>) p = Inr (h'\<lparr>lessFunc := g\<rparr>)"
      proof (rule less.IH [OF p _ 3 4])
        fix a b assume "a \<in> set (heaps h1)" "b \<in> set (heaps h1)"
        then show "g a b = lessFunc h1 a b" using less.prems(1) s l by simp
      qed
      then show ?thesis using 2 by simp
    qed
  qed
qed

lemma down_cong:
  assumes "\<And>a b. a \<in> set (heaps h) \<Longrightarrow> b \<in> set (heaps h) \<Longrightarrow> g a b = lessFunc h a b"
    and "down h k = Inr h'"
  shows "down (h\<lparr>lessFunc := g\<rparr>) k = Inr (h'\<lparr>lessFunc := g\<rparr>)"
  using assms
proof (induction "length (heaps h) - k" arbitrary: h k rule: less_induct)
  case less
  let ?hg = "h\<lparr>lessFunc := g\<rparr>"
  have agree: "g (heaps h ! i) (heaps h ! j) = lessFunc h (heaps h ! i) (heaps h ! j)"
    if "i < length (heaps h)" "j < length (heaps h)" for i j
    using less.prems(1) that by simp
  have step: "down (swapped ?hg k m) m = Inr (h'\<lparr>lessFunc := g\<rparr>)"
    if m: "m < length (heaps h)" "k < m" and eq: "down h k = down (swapped h k m) m" for m
  proof -
    have 1: "length (heaps (swapped h k m)) - m < length (heaps h) - k" using m by simp
    have s: "set (heaps (swapped h k m)) = set (heaps h)"
      using set_swapped [of k h m] m by simp
    have 2: "down (swapped h k m) m = Inr h'" using eq less.prems(2) by simp
    show ?thesis
      unfolding swapped_lessFunc_update
    proof (rule less.hyps [OF 1 _ 2])
      fix a b assume "a \<in> set (heaps (swapped h k m))" "b \<in> set (heaps (swapped h k m))"
      then have "a \<in> set (heaps h)" "b \<in> set (heaps h)" using s by simp_all
      then show "g a b = lessFunc (swapped h k m) a b" using less.prems(1) by simp
    qed
  qed
  show ?case
  proof (cases h k rule: down_cases)
    case stop
    have "down ?hg k = Inr ?hg"
    proof (rule down_stop)
      assume "2 * k + 1 < length (heaps ?hg)"
      then show "\<not> lessFunc ?hg (heaps ?hg ! (2 * k + 1)) (heaps ?hg ! k)"
        using stop(2) agree [of "2 * k + 1" k] by simp
    next
      assume "2 * k + 2 < length (heaps ?hg)"
      then show "\<not> lessFunc ?hg (heaps ?hg ! (2 * k + 2)) (heaps ?hg ! k)"
        using stop(3) agree [of "2 * k + 2" k] by simp
    qed
    then show ?thesis using stop(1) less.prems(2) by simp
  next
    case left
    have "down ?hg k = down (swapped ?hg k (2 * k + 1)) (2 * k + 1)"
    proof (rule down_left)
      show "2 * k + 1 < length (heaps ?hg)" using left(2) by simp
      show "lessFunc ?hg (heaps ?hg ! (2 * k + 1)) (heaps ?hg ! k)"
        using left(2,3) agree [of "2 * k + 1" k] by simp
      assume "2 * k + 2 < length (heaps ?hg)"
      then show "\<not> lessFunc ?hg (heaps ?hg ! (2 * k + 2)) (heaps ?hg ! (2 * k + 1))"
        using left(4) agree [of "2 * k + 2" "2 * k + 1"] by simp
    qed
    moreover have "down (swapped ?hg k (2 * k + 1)) (2 * k + 1) = Inr (h'\<lparr>lessFunc := g\<rparr>)"
      using left(1,2) by (intro step) simp_all
    ultimately show ?thesis by (rule trans)
  next
    case right_left
    have "down ?hg k = down (swapped ?hg k (2 * k + 2)) (2 * k + 2)"
    proof (rule down_right_after_left)
      show "2 * k + 2 < length (heaps ?hg)" using right_left(2) by simp
      show "lessFunc ?hg (heaps ?hg ! (2 * k + 1)) (heaps ?hg ! k)"
        using right_left(2,3) agree [of "2 * k + 1" k] by simp
      show "lessFunc ?hg (heaps ?hg ! (2 * k + 2)) (heaps ?hg ! (2 * k + 1))"
        using right_left(2,4) agree [of "2 * k + 2" "2 * k + 1"] by simp
    qed
    moreover have "down (swapped ?hg k (2 * k + 2)) (2 * k + 2) = Inr (h'\<lparr>lessFunc := g\<rparr>)"
      using right_left(1,2) by (intro step) simp_all
    ultimately show ?thesis by (rule trans)
  next
    case right
    have "down ?hg k = down (swapped ?hg k (2 * k + 2)) (2 * k + 2)"
    proof (rule down_right_only)
      show "2 * k + 2 < length (heaps ?hg)" using right(2) by simp
      show "\<not> lessFunc ?hg (heaps ?hg ! (2 * k + 1)) (heaps ?hg ! k)"
        using right(2,3) agree [of "2 * k + 1" k] by simp
      show "lessFunc ?hg (heaps ?hg ! (2 * k + 2)) (heaps ?hg ! k)"
        using right(2,4) agree [of "2 * k + 2" k] by simp
    qed
    moreover have "down (swapped ?hg k (2 * k + 2)) (2 * k + 2) = Inr (h'\<lparr>lessFunc := g\<rparr>)"
      using right(1,2) by (intro step) simp_all
    ultimately show ?thesis by (rule trans)
  qed
qed

lemma Push_set:
  assumes "Push h x = Inr h'"
  shows "set (heaps h') = insert x (set (heaps h))" "lessFunc h' = lessFunc h"
proof -
  from Push_returns [of h x] assms
  have m: "mset (heaps h') = add_mset x (mset (heaps h))" and l: "lessFunc h' = lessFunc h"
    by auto
  from m have "set_mset (mset (heaps h')) = set_mset (add_mset x (mset (heaps h)))" by simp
  then show "set (heaps h') = insert x (set (heaps h))" by simp
  show "lessFunc h' = lessFunc h" by (rule l)
qed

lemma Pop_set:
  assumes "Pop h = Inr h'"
  shows "set (heaps h') \<subseteq> set (heaps h)" "lessFunc h' = lessFunc h"
proof -
  have "set (heaps h') \<subseteq> set (heaps h) \<and> lessFunc h' = lessFunc h"
  proof (cases "Empty h")
    case True
    then show ?thesis using assms Pop_empty [of h] by simp
  next
    case False
    from Pop_returns [OF False] assms
    have m: "add_mset (heaps h ! 0) (mset (heaps h')) = mset (heaps h)"
      and l: "lessFunc h' = lessFunc h" by auto
    from m have "set_mset (add_mset (heaps h ! 0) (mset (heaps h'))) = set_mset (mset (heaps h))"
      by simp
    then have "insert (heaps h ! 0) (set (heaps h')) = set (heaps h)" by simp
    then show ?thesis using l by blast
  qed
  then show "set (heaps h') \<subseteq> set (heaps h)" "lessFunc h' = lessFunc h" by simp_all
qed

lemma lessFunc_heaps_update:
  "h\<lparr>lessFunc := g, heaps := xs\<rparr> = h\<lparr>heaps := xs, lessFunc := g\<rparr>"
  by (cases h) simp

lemma Push_cong:
  assumes agree: "\<And>a b. a \<in> insert x (set (heaps h)) \<Longrightarrow> b \<in> insert x (set (heaps h))
                    \<Longrightarrow> g a b = lessFunc h a b"
    and res: "Push h x = Inr h'"
  shows "Push (h\<lparr>lessFunc := g\<rparr>) x = Inr (h'\<lparr>lessFunc := g\<rparr>)"
proof -
  define h1 where "h1 = h\<lparr>heaps := heaps h @ [x]\<rparr>"
  let ?n = "length (heaps h)"
  have 1: "Push h x = up h1 ?n" by (simp add: Push_def h1_def Let_def)
  have 2: "Push (h\<lparr>lessFunc := g\<rparr>) x = up (h1\<lparr>lessFunc := g\<rparr>) ?n"
    by (simp add: Push_def h1_def Let_def lessFunc_heaps_update)
  have "up (h1\<lparr>lessFunc := g\<rparr>) ?n = Inr (h'\<lparr>lessFunc := g\<rparr>)"
  proof (rule up_cong)
    fix a b assume "a \<in> set (heaps h1)" "b \<in> set (heaps h1)"
    then show "g a b = lessFunc h1 a b" using agree by (simp add: h1_def)
  next
    show "?n < length (heaps h1)" by (simp add: h1_def)
    show "up h1 ?n = Inr h'" using 1 res by simp
  qed
  then show ?thesis using 2 by simp
qed

lemma Pop_cong:
  assumes agree: "\<And>a b. a \<in> set (heaps h) \<Longrightarrow> b \<in> set (heaps h) \<Longrightarrow> g a b = lessFunc h a b"
    and res: "Pop h = Inr h'"
  shows "Pop (h\<lparr>lessFunc := g\<rparr>) = Inr (h'\<lparr>lessFunc := g\<rparr>)"
proof (cases "Empty h")
  case True
  then have "Empty (h\<lparr>lessFunc := g\<rparr>)" by (simp add: Empty_def)
  then show ?thesis using Pop_empty [of "h\<lparr>lessFunc := g\<rparr>"] Pop_empty [OF True] res by simp
next
  case False
  let ?hg = "h\<lparr>lessFunc := g\<rparr>"
  have ne: "\<not> Empty ?hg" using False by (simp add: Empty_def)
  have pg: "popped ?hg = (popped h)\<lparr>lessFunc := g\<rparr>" by simp
  have sub: "set (heaps (popped h)) \<subseteq> set (heaps h)"
  proof -
    from mset_popped [OF False]
    have "set_mset (add_mset (heaps h ! 0) (mset (heaps (popped h)))) = set_mset (mset (heaps h))"
      by simp
    then have "insert (heaps h ! 0) (set (heaps (popped h))) = set (heaps h)" by simp
    then show ?thesis by blast
  qed
  show ?thesis
  proof (cases "length (heaps h) > 1")
    case True
    then have d: "down (popped h) 0 = Inr h'" using Pop_nonempty [OF False] res by simp
    have "down ((popped h)\<lparr>lessFunc := g\<rparr>) 0 = Inr (h'\<lparr>lessFunc := g\<rparr>)"
    proof (rule down_cong [OF _ d])
      fix a b assume "a \<in> set (heaps (popped h))" "b \<in> set (heaps (popped h))"
      then have "a \<in> set (heaps h)" "b \<in> set (heaps h)" using sub by blast+
      then show "g a b = lessFunc (popped h) a b" using agree by simp
    qed
    then have "down (popped ?hg) 0 = Inr (h'\<lparr>lessFunc := g\<rparr>)" unfolding pg .
    moreover have "Pop ?hg = down (popped ?hg) 0"
      using Pop_nonempty [OF ne] True by simp
    ultimately show ?thesis by (simp only:)
  next
    case False
    then have "h' = popped h" using Pop_nonempty [OF \<open>\<not> Empty h\<close>] res by simp
    moreover have "Pop ?hg = Inr (popped ?hg)" using Pop_nonempty [OF ne] False by simp
    ultimately show ?thesis unfolding pg by simp
  qed
qed

lemma run_pushes_cong:
  assumes "\<And>a b. a \<in> set (heaps h) \<union> set xs \<Longrightarrow> b \<in> set (heaps h) \<union> set xs
             \<Longrightarrow> g a b = lessFunc h a b"
    and "run_calls h (map PushCall xs) = Inr h'"
  shows "run_calls (h\<lparr>lessFunc := g\<rparr>) (map PushCall xs) = Inr (h'\<lparr>lessFunc := g\<rparr>)"
  using assms
proof (induction xs arbitrary: h)
  case Nil
  then show ?case by simp
next
  case (Cons x xs)
  obtain h1 where h1: "Push h x = Inr h1" using Push_returns [of h x] by blast
  have s: "set (heaps h1) = insert x (set (heaps h))" "lessFunc h1 = lessFunc h"
    using Push_set [OF h1] by simp_all
  have p: "Push (h\<lparr>lessFunc := g\<rparr>) x = Inr (h1\<lparr>lessFunc := g\<rparr>)"
  proof (rule Push_cong [OF _ h1])
    fix a b assume "a \<in> insert x (set (heaps h))" "b \<in> insert x (set (heaps h))"
    then have "a \<in> set (heaps h) \<union> set (x # xs)" "b \<in> set (heaps h) \<union> set (x # xs)"
      by auto
    then show "g a b = lessFunc h a b" by (rule Cons.prems(1))
  qed
  have r: "run_calls h1 (map PushCall xs) = Inr h'" using Cons.prems(2) h1 by simp
  have "run_calls (h1\<lparr>lessFunc := g\<rparr>) (map PushCall xs) = Inr (h'\<lparr>lessFunc := g\<rparr>)"
  proof (rule Cons.IH [OF _ r])
    fix a b assume "a \<in> set (heaps h1) \<union> set xs" "b \<in> set (heaps h1) \<union> set xs"
    then have "a \<in> set (heaps h) \<union> set (x # xs)" "b \<in> set (heaps h) \<union> set (x # xs)"
      using s(1) by auto
    then have "g a b = lessFunc h a b" by (rule Cons.prems(1))
    then show "g a b = lessFunc h1 a b" using s(2) by simp
  qed
  then show ?case using p by simp
qed

lemma top_pop_n_cong:
  assumes "\<And>a b. a \<in> set (heaps h) \<Longrightarrow> b \<in> set (heaps h) \<Longrightarrow> g a b = lessFunc h a b"
  shows "top_pop_n n (h\<lparr>lessFunc := g\<rparr>) = top_pop_n n h"
  using assms
proof (induction n arbitrary: h)
  case 0
  then show ?case by simp
next
  case (Suc n)
  have t: "Top (h\<lparr>lessFunc := g\<rparr>) = Top h" by (simp add: Top_def Empty_def)
  show ?case
  proof (cases "Empty h")
    case True
    then show ?thesis using t by (simp add: Top_def)
  next
    case False
    obtain h1 where h1: "Pop h = Inr h1" using Pop_returns [OF False] by blast
    have s: "set (heaps h1) \<subseteq> set (heaps h)" "lessFunc h1 = lessFunc h"
      using Pop_set [OF h1] by simp_all
    have p: "Pop (h\<lparr>lessFunc := g\<rparr>) = Inr (h1\<lparr>lessFunc := g\<rparr>)"
      using Pop_cong [OF _ h1] Suc.prems by blast
    have "top_pop_n n (h1\<lparr>lessFunc := g\<rparr>) = top_pop_n n h1"
    proof (rule Suc.IH)
      fix a b assume "a \<in> set (heaps h1)" "b \<in> set (heaps h1)"
      then have "a \<in> set (heaps h)" "b \<in> set (heaps h)" using s(1) by blast+
      then show "g a b = lessFunc h1 a b" using Suc.prems s(2) by simp
    qed
    moreover have "Top h = Inr (heaps h ! 0)" using False by (simp add: Top_def)
    ultimately show ?thesis using t p h1 by simp
  qed
qed

lemma run_calls_lessFunc:
  "run_calls h cs = Inr h' \<Longrightarrow> lessFunc h' = lessFunc h"
proof (induction cs arbitrary: h)
  case Nil
  then show ?case by simp
next
  case (Cons c cs)
  obtain h1 where h1: "apply_call h c = Inr h1" "lessFunc h1 = lessFunc h"
    using apply_call_returns [of h c] by blast
  then have "run_calls h1 cs = Inr h'" using Cons.prems by simp
  from Cons.IH [OF this] h1 show ?case by simp
qed

lemma strict_weak_order_on_extend:
  assumes swo: "strict_weak_order_on A f" and a0: "a0 \<in> A"
  shows "strict_weak_order (\<lambda>a b. f (if a \<in> A then a else a0) (if b \<in> A then b else a0))"
proof -
  define r where "r = (\<lambda>x. if x \<in> A then x else a0)"
  have r: "\<And>x. r x \<in> A" using a0 by (simp add: r_def)
  have irr: "\<And>a. a \<in> A \<Longrightarrow> \<not> f a a"
    and tr: "\<And>a b c. a \<in> A \<Longrightarrow> b \<in> A \<Longrightarrow> c \<in> A \<Longrightarrow> f a b \<Longrightarrow> f b c \<Longrightarrow> f a c"
    and ntr: "\<And>a b c. a \<in> A \<Longrightarrow> b \<in> A \<Longrightarrow> c \<in> A \<Longrightarrow> \<not> f a b \<Longrightarrow> \<not> f b c \<Longrightarrow> \<not> f a c"
    using swo unfolding strict_weak_order_on_def by blast+
  have "strict_weak_order (\<lambda>a b. f (r a) (r b))"
    unfolding strict_weak_order_def
  proof (intro conjI allI impI)
    fix a show "\<not> f (r a) (r a)" using irr r by blast
  next
    fix a b c assume "f (r a) (r b)" "f (r b) (r c)"
    then show "f (r a) (r c)" using tr [OF r r r] by blast
  next
    fix a b c assume "\<not> f (r a) (r b)" "\<not> f (r b) (r c)"
    then show "\<not> f (r a) (r c)" using ntr [OF r r r] by blast
  qed
  then show ?thesis by (simp add: r_def)
qed

lemma extraction_sorted_on:
  assumes swo: "strict_weak_order_on (set xs) (lessFunc h0)" and empty: "heaps h0 = []"
  shows "\<exists>h ys. run_calls h0 (map PushCall xs) = Inr h
          \<and> top_pop_n (length xs) h = Inr ys
          \<and> sorted_wrt (\<lambda>a b. \<not> lessFunc h0 b a) ys
          \<and> mset ys = mset xs"
proof (cases "xs = []")
  case True
  then show ?thesis by simp
next
  case False
  define f where "f = lessFunc h0"
  define a0 where "a0 = hd xs"
  define g where "g = (\<lambda>a b. f (if a \<in> set xs then a else a0) (if b \<in> set xs then b else a0))"
  define hg where "hg = h0\<lparr>lessFunc := g\<rparr>"
  have a0: "a0 \<in> set xs" using False by (simp add: a0_def)
  have swog: "strict_weak_order g"
    unfolding g_def using strict_weak_order_on_extend [OF swo [folded f_def] a0] .
  have agree: "g a b = f a b" if "a \<in> set xs" "b \<in> set xs" for a b
    using that by (simp add: g_def)
  obtain h where h: "run_calls h0 (map PushCall xs) = Inr h" "mset (heaps h) = mset xs"
    using run_pushes_mset [of h0 xs] empty by auto
  have lh: "lessFunc h = f" using run_calls_lessFunc [OF h(1)] by (simp add: f_def)
  have sh: "set (heaps h) = set xs" using h(2) by (rule mset_eq_setD)
  have len: "length xs = length (heaps h)"
  proof -
    from h(2) have "size (mset (heaps h)) = size (mset xs)" by simp
    then show ?thesis by simp
  qed
  have rg: "run_calls hg (map PushCall xs) = Inr (h\<lparr>lessFunc := g\<rparr>)"
    unfolding hg_def
  proof (rule run_pushes_cong [OF _ h(1)])
    fix a b assume "a \<in> set (heaps h0) \<union> set xs" "b \<in> set (heaps h0) \<union> set xs"
    then show "g a b = lessFunc h0 a b" using agree empty by (simp add: f_def)
  qed
  have "strict_weak_order (lessFunc hg)" "heap_property (lessFunc hg) (heaps hg)"
    using swog empty heap_property_Nil by (simp_all add: hg_def)
  from run_calls_heap_property [OF this, of "map PushCall xs"] rg
  have hp: "heap_property g (heaps h)" by (auto simp: hg_def)
  have "strict_weak_order (lessFunc (h\<lparr>lessFunc := g\<rparr>))"
    "heap_property (lessFunc (h\<lparr>lessFunc := g\<rparr>)) (heaps (h\<lparr>lessFunc := g\<rparr>))"
    "length xs = length (heaps (h\<lparr>lessFunc := g\<rparr>))"
    using swog hp len by simp_all
  from top_pop_n_sorted [OF this] obtain ys where
    ys: "top_pop_n (length xs) (h\<lparr>lessFunc := g\<rparr>) = Inr ys" "mset ys = mset (heaps h)"
    "sorted_wrt (\<lambda>a b. \<not> g b a) ys" by auto
  have "top_pop_n (length xs) (h\<lparr>lessFunc := g\<rparr>) = top_pop_n (length xs) h"
  proof (rule top_pop_n_cong)
    fix a b assume "a \<in> set (heaps h)" "b \<in> set (heaps h)"
    then show "g a b = lessFunc h a b" using agree sh lh by simp
  qed
  then have t: "top_pop_n (length xs) h = Inr ys" using ys(1) by simp
  have sy: "set ys = set xs" using ys(2) h(2) by (metis mset_eq_setD)
  have "sorted_wrt (\<lambda>a b. \<not> f b a) ys"
  proof (rule sorted_wrt_mono_rel [OF _ ys(3)])
    fix a b assume "a \<in> set ys" "b \<in> set ys" "\<not> g b a"
    then show "\<not> f b a" using agree sy by simp
  qed
  then show ?thesis using h t ys(2) by (simp add: f_def)
qed

lemma strict_weak_order_on_linorder:
  "strict_weak_order_on A (\<lambda>a b. a < (b :: 'a :: linorder))"
  unfolding strict_weak_order_on_def by auto

lemma float64_order_not_weak:
  "\<not> strict_weak_order_on (set [Finite 5, NaN, Finite 7, Finite 1]) (\<lambda>a b. a < b)"
proof
  assume "strict_weak_order_on (set [Finite 5, NaN, Finite 7, Finite 1]) (\<lambda>a b. a < b)"
  then have "\<not> Finite 1 < NaN \<longrightarrow> \<not> NaN < Finite 5 \<longrightarrow> \<not> Finite 1 < Finite 5"
    unfolding strict_weak_order_on_def by simp
  then show False by simp
qed

section \<open>Construction\<close>

text \<open>
  C7: the explicit-predicate constructor called with a nil predicate returns an error value
  and no heap; called with any non-nil predicate it returns no error and a heap that holds
  that predicate (and an empty storage).
\<close>

theorem NewAny_validation:
  "NewAny None = (None, Some (ErrorString ''less function is required to define heap ordering''))
   \<and> NewAny (Some f) = (Some \<lparr>heaps = [], lessFunc = f\<rparr>, None)
   \<and> (\<exists>h. fst (NewAny (Some f)) = Some h \<and> lessFunc h = f \<and> snd (NewAny (Some f)) = None)"
  by (simp add: NewAny_def)

section \<open>Failure behaviour on the empty heap\<close>

text \<open>
  C4: on every heap whose size is 0, Top panics: it returns no value.
\<close>

theorem Top_empty_panics:
  "Size h = 0 \<Longrightarrow>
     Top h = Inl (PanicString ''cannot retrieve top element from an empty heap'')"
  by (simp add: Top_def Size_def Empty_def)

theorem Top_empty_panics_witness:
  "Size \<lparr>heaps = ([] :: nat list), lessFunc = (\<lambda>a b. a < b)\<rparr> = 0
   \<and> Top \<lparr>heaps = ([] :: nat list), lessFunc = (\<lambda>a b. a < b)\<rparr>
       = Inl (PanicString ''cannot retrieve top element from an empty heap'')"
proof -
  have e: "Size \<lparr>heaps = ([] :: nat list), lessFunc = (\<lambda>a b. a < b)\<rparr> = 0"
    by (simp add: Size_def)
  from e Top_empty_panics [OF e] show ?thesis by simp
qed

text \<open>
  C5: Pop on a heap of size 0 returns normally and returns the heap as it was; so does any
  number of Pop calls in a row: the storage is unchanged and the size is still 0.
\<close>

theorem Pop_empty_noop:
  "Size h = 0 \<Longrightarrow>
     Pop h = Inr h
     \<and> (\<exists>h'. run_calls h (replicate n PopCall) = Inr h' \<and> heaps h' = heaps h \<and> Size h' = 0)"
proof -
  assume z: "Size h = 0"
  then have e: "Empty h" by (simp add: Size_def Empty_def)
  have "run_calls h (replicate n PopCall) = Inr h"
    by (induction n) (simp_all add: Pop_empty [OF e])
  then show ?thesis using z Pop_empty [OF e] by simp
qed

text \<open>
  Three Pop calls on the empty heap over the natural numbers.
\<close>

theorem Pop_empty_noop_witness:
  "Size \<lparr>heaps = ([] :: nat list), lessFunc = (\<lambda>a b. a < b)\<rparr> = 0
   \<and> Pop \<lparr>heaps = ([] :: nat list), lessFunc = (\<lambda>a b. a < b)\<rparr>
       = Inr \<lparr>heaps = [], lessFunc = (\<lambda>a b. a < b)\<rparr>
   \<and> (\<exists>h'. run_calls \<lparr>heaps = ([] :: nat list), lessFunc = (\<lambda>a b. a < b)\<rparr>
               (replicate 3 PopCall) = Inr h'
          \<and> heaps h' = [] \<and> Size h' = 0)"
proof -
  have e: "Size \<lparr>heaps = ([] :: nat list), lessFunc = (\<lambda>a b. a < b)\<rparr> = 0"
    by (simp add: Size_def)
  from e Pop_empty_noop [OF e, of 3, unfolded Heap.select_convs]
  show ?thesis by blast
qed

section \<open>The heap property\<close>







section \<open>Sorted extraction\<close>

text \<open>
  C2 (amended): for every list of distinct values of an ordered type among which
  \<^verbatim>\<open>a < b\<close> is a strict weak ordering (as it is among integers, among strings, and among
  floating-point values other than NaN), pushing them all on a heap made by \<^verbatim>\<open>New\<close>
  and then reading Top and calling Pop as many times as there are values returns without
  a panic and yields the pushed values in non-decreasing order: no later value strictly
  precedes an earlier one.
\<close>

theorem sorted_extraction:
  "strict_weak_order_on (set xs) (\<lambda>a b. a < b) \<Longrightarrow> distinct xs \<Longrightarrow> New = Some h0 \<Longrightarrow>
     \<exists>h ys. run_calls h0 (map PushCall xs) = Inr h
          \<and> top_pop_n (length xs) h = Inr ys
          \<and> sorted_wrt (\<lambda>a b. \<not> lessFunc h0 b a) ys
          \<and> mset ys = mset xs"
proof -
  assume swo: "strict_weak_order_on (set xs) (\<lambda>a b. a < b)" and new: "New = Some h0"
  from new have h0: "heaps h0 = []" "lessFunc h0 = (\<lambda>a b. a < b)"
    by (auto simp: New_def NewAny_def Let_def)
  from swo h0(2) have "strict_weak_order_on (set xs) (lessFunc h0)" by simp
  from extraction_sorted_on [OF this h0(1)] show ?thesis .
qed

text \<open>
  The \<^verbatim>\<open>float64\<close> values 3, 1, 2.
\<close>

theorem sorted_extraction_witness:
  "strict_weak_order_on (set [Finite 3, Finite 1, Finite 2]) (\<lambda>a b. a < b)
   \<and> distinct [Finite 3, Finite 1, Finite 2]
   \<and> New = Some \<lparr>heaps = [], lessFunc = (\<lambda>a b. a < (b :: float64))\<rparr>
   \<and> (\<exists>h ys. run_calls \<lparr>heaps = [], lessFunc = (\<lambda>a b. a < b)\<rparr>
                 (map PushCall [Finite 3, Finite 1, Finite 2]) = Inr h
          \<and> top_pop_n (length [Finite 3, Finite 1, Finite 2]) h = Inr ys
          \<and> sorted_wrt (\<lambda>a b. \<not> b < a) ys
          \<and> mset ys = mset [Finite 3, Finite 1, Finite 2])"
proof -
  have s: "strict_weak_order_on (set [Finite 3, Finite 1, Finite 2]) (\<lambda>a b. a < b)"
    by (simp add: strict_weak_order_on_def)
  have a: "distinct [Finite 3, Finite 1, Finite 2]" by simp
  have b: "New = Some \<lparr>heaps = [], lessFunc = (\<lambda>a b. a < (b :: float64))\<rparr>"
    by (simp add: New_def NewAny_def)
  from s a b sorted_extraction [OF s a b, unfolded Heap.select_convs]
  show ?thesis by blast
qed

text \<open>
  Without the condition on the values the property fails. On a heap made by \<^verbatim>\<open>New\<close>
  for \<^verbatim>\<open>float64\<close>, pushing 5, NaN, 7, 1 and reading Top and calling Pop four times
  yields 5, 1, 7, NaN: the later value 1 strictly precedes the earlier value 5.
\<close>

theorem sorted_extraction_counterexample:
  "distinct [Finite 5, NaN, Finite 7, Finite 1]
   \<and> case_sum Inl (top_pop_n 4)
       (run_calls (the New) (map PushCall [Finite 5, NaN, Finite 7, Finite 1]))
     = Inr [Finite 5, Finite 1, Finite 7, NaN]
   \<and> Finite 1 < Finite 5"
  by code_simp

section \<open>Size and contents\<close>

text \<open>
  C6: after any sequence of calls on a freshly constructed heap, the run returns without a
  panic and Size is the number of Push calls minus the number of Pop calls made while the
  storage was non-empty.
\<close>

theorem Size_consistency:
  "fst (NewAny (Some f)) = Some h0 \<Longrightarrow>
     \<exists>h. run_calls h0 cs = Inr h
        \<and> Size h = int (pushes cs) - int (pops_on_nonempty h0 cs)"
proof -
  assume "fst (NewAny (Some f)) = Some h0"
  then have "Size h0 = 0" using NewAny_Some [of f h0] by (simp add: Size_def)
  then show ?thesis using run_calls_size [of h0 cs] by simp
qed

text \<open>
  Seven calls: three pushes, four pops of which two find the storage non-empty.
\<close>

theorem Size_consistency_witness:
  "fst (NewAny (Some (\<lambda>a b. a < (b :: nat)))) = Some \<lparr>heaps = [], lessFunc = (\<lambda>a b. a < b)\<rparr>
   \<and> (\<exists>h. run_calls \<lparr>heaps = [], lessFunc = (\<lambda>a b. a < (b :: nat))\<rparr>
              [PopCall, PushCall 4, PushCall 2, PopCall, PopCall, PopCall, PushCall 7] = Inr h
        \<and> Size h = 1)"
proof -
  have b: "fst (NewAny (Some (\<lambda>a b. a < (b :: nat))))
             = Some \<lparr>heaps = [], lessFunc = (\<lambda>a b. a < b)\<rparr>"
    by (simp add: NewAny_def)
  have c: "int (pushes [PopCall, PushCall 4, PushCall 2, PopCall, PopCall, PopCall, PushCall (7 :: nat)])
           - int (pops_on_nonempty \<lparr>heaps = [], lessFunc = (\<lambda>a b. a < (b :: nat))\<rparr>
              [PopCall, PushCall 4, PushCall 2, PopCall, PopCall, PopCall, PushCall 7]) = 1"
    by code_simp
  from b Size_consistency [OF b, of "[PopCall, PushCall 4, PushCall 2, PopCall, PopCall, PopCall, PushCall 7]", unfolded c]
  show ?thesis by blast
qed

text \<open>
  C10: on a non-empty heap Pop removes exactly one occurrence of the element Top returns:
  the multiset of stored elements after Pop is the multiset before minus that occurrence.
  Push of \<open>x\<close> adds one occurrence of \<open>x\<close> to the multiset of stored elements.
\<close>

theorem Pop_Push_multiset:
  "(\<not> Empty h \<longrightarrow>
      (\<exists>t h'. Top h = Inr t \<and> Pop h = Inr h' \<and> t \<in># mset (heaps h)
             \<and> mset (heaps h') = mset (heaps h) - {#t#}))
   \<and> (\<exists>h'. Push h x = Inr h' \<and> mset (heaps h') = mset (heaps h) + {#x#})"
proof
  show "\<not> Empty h \<longrightarrow>
      (\<exists>t h'. Top h = Inr t \<and> Pop h = Inr h' \<and> t \<in># mset (heaps h)
             \<and> mset (heaps h') = mset (heaps h) - {#t#})"
  proof
    assume ne: "\<not> Empty h"
    then have top: "Top h = Inr (heaps h ! 0)" by (simp add: Top_def)
    obtain h' where h': "Pop h = Inr h'"
      "add_mset (heaps h ! 0) (mset (heaps h')) = mset (heaps h)"
      using Pop_returns [OF ne] by blast
    have "heaps h ! 0 \<in># mset (heaps h)" using ne by (simp add: Empty_def)
    moreover have "mset (heaps h') = mset (heaps h) - {#heaps h ! 0#}"
      using h'(2) by (metis add_mset_remove_trivial)
    ultimately show "\<exists>t h'. Top h = Inr t \<and> Pop h = Inr h' \<and> t \<in># mset (heaps h)
             \<and> mset (heaps h') = mset (heaps h) - {#t#}"
      using top h'(1) by blast
  qed
  show "\<exists>h'. Push h x = Inr h' \<and> mset (heaps h') = mset (heaps h) + {#x#}"
    using Push_returns [of h x] by auto
qed

text \<open>
  The heap with storage 1, 3, 2 under the natural order; Push of 0.
\<close>

theorem Pop_Push_multiset_witness:
  "\<not> Empty \<lparr>heaps = [1, 3, 2 :: nat], lessFunc = (\<lambda>a b. a < b)\<rparr>
   \<and> (\<exists>t h'. Top \<lparr>heaps = [1, 3, 2 :: nat], lessFunc = (\<lambda>a b. a < b)\<rparr> = Inr t
          \<and> Pop \<lparr>heaps = [1, 3, 2 :: nat], lessFunc = (\<lambda>a b. a < b)\<rparr> = Inr h'
          \<and> t \<in># mset [1, 3, 2 :: nat]
          \<and> mset (heaps h') = mset [1, 3, 2] - {#t#})
   \<and> (\<exists>h'. Push \<lparr>heaps = [1, 3, 2 :: nat], lessFunc = (\<lambda>a b. a < b)\<rparr> 0 = Inr h'
          \<and> mset (heaps h') = mset [1, 3, 2] + {#0#})"
proof -
  have e: "\<not> Empty \<lparr>heaps = [1, 3, 2 :: nat], lessFunc = (\<lambda>a b. a < b)\<rparr>"
    by (simp add: Empty_def)
  from e Pop_Push_multiset [of "\<lparr>heaps = [1, 3, 2 :: nat], lessFunc = (\<lambda>a b. a < b)\<rparr>" 0, unfolded Heap.select_convs]
  show ?thesis by blast
qed

section \<open>The sifting walks\<close>

text \<open>
  C8: sift-down from index \<open>k\<close> first compares the left child (if in bounds) with
  index \<open>k\<close>, giving the current best, then compares the right child (if in bounds) with
  that best, not with \<open>k\<close>, and swaps with the result unless it is \<open>k\<close> itself. When
  both children strictly precede the parent and the right child strictly precedes the
  left, the right child is chosen and ends at index \<open>k\<close>. When both children strictly
  precede the parent but the right one does not strictly precede the left, the left child
  is chosen, although the right child strictly precedes the element at \<open>k\<close>.
\<close>

theorem down_swap_target:
  "down h k =
     (let best = (if 2 * k + 1 < length (heaps h)
                     \<and> lessFunc h (heaps h ! (2 * k + 1)) (heaps h ! k)
                  then 2 * k + 1 else k);
          target = (if 2 * k + 2 < length (heaps h)
                       \<and> lessFunc h (heaps h ! (2 * k + 2)) (heaps h ! best)
                    then 2 * k + 2 else best)
      in if target \<noteq> k then down (swapped h k target) target else Inr h)
   \<and> (2 * k + 2 < length (heaps h)
        \<and> lessFunc h (heaps h ! (2 * k + 1)) (heaps h ! k)
        \<and> lessFunc h (heaps h ! (2 * k + 2)) (heaps h ! k)
        \<and> lessFunc h (heaps h ! (2 * k + 2)) (heaps h ! (2 * k + 1))
      \<longrightarrow> down h k = down (swapped h k (2 * k + 2)) (2 * k + 2)
          \<and> (\<exists>h'. down h k = Inr h' \<and> heaps h' ! k = heaps h ! (2 * k + 2)))
   \<and> (2 * k + 2 < length (heaps h)
        \<and> lessFunc h (heaps h ! (2 * k + 1)) (heaps h ! k)
        \<and> lessFunc h (heaps h ! (2 * k + 2)) (heaps h ! k)
        \<and> \<not> lessFunc h (heaps h ! (2 * k + 2)) (heaps h ! (2 * k + 1))
      \<longrightarrow> down h k = down (swapped h k (2 * k + 1)) (2 * k + 1)
          \<and> (\<exists>h'. down h k = Inr h' \<and> heaps h' ! k = heaps h ! (2 * k + 1)))"
proof (intro conjI impI)
  show "down h k =
     (let best = (if 2 * k + 1 < length (heaps h)
                     \<and> lessFunc h (heaps h ! (2 * k + 1)) (heaps h ! k)
                  then 2 * k + 1 else k);
          target = (if 2 * k + 2 < length (heaps h)
                       \<and> lessFunc h (heaps h ! (2 * k + 2)) (heaps h ! best)
                    then 2 * k + 2 else best)
      in if target \<noteq> k then down (swapped h k target) target else Inr h)"
    by (cases h k rule: down_cases) (auto simp: Let_def)
next
  assume a: "2 * k + 2 < length (heaps h)
        \<and> lessFunc h (heaps h ! (2 * k + 1)) (heaps h ! k)
        \<and> lessFunc h (heaps h ! (2 * k + 2)) (heaps h ! k)
        \<and> lessFunc h (heaps h ! (2 * k + 2)) (heaps h ! (2 * k + 1))"
  then show eq: "down h k = down (swapped h k (2 * k + 2)) (2 * k + 2)"
    using down_right_after_left [of k h] by blast
  show "\<exists>h'. down h k = Inr h' \<and> heaps h' ! k = heaps h ! (2 * k + 2)"
    using down_moves_child_up [OF _ _ eq] a by simp
next
  assume a: "2 * k + 2 < length (heaps h)
        \<and> lessFunc h (heaps h ! (2 * k + 1)) (heaps h ! k)
        \<and> lessFunc h (heaps h ! (2 * k + 2)) (heaps h ! k)
        \<and> \<not> lessFunc h (heaps h ! (2 * k + 2)) (heaps h ! (2 * k + 1))"
  then show eq: "down h k = down (swapped h k (2 * k + 1)) (2 * k + 1)"
    using down_left [of k h] by simp
  show "\<exists>h'. down h k = Inr h' \<and> heaps h' ! k = heaps h ! (2 * k + 1)"
    using down_moves_child_up [OF _ _ eq] a by simp
qed

text \<open>
  Storage 5, 3, 1 (the right child is chosen) and storage 5, 1, 3 (the left child is chosen).
\<close>

theorem down_swap_target_witness:
  "down \<lparr>heaps = [5, 3, 1 :: nat], lessFunc = (\<lambda>a b. a < b)\<rparr> 0
     = down \<lparr>heaps = [1, 3, 5], lessFunc = (\<lambda>a b. a < b)\<rparr> 2
   \<and> (\<exists>h'. down \<lparr>heaps = [5, 3, 1 :: nat], lessFunc = (\<lambda>a b. a < b)\<rparr> 0 = Inr h'
          \<and> heaps h' ! 0 = 1)
   \<and> down \<lparr>heaps = [5, 1, 3 :: nat], lessFunc = (\<lambda>a b. a < b)\<rparr> 0
     = down \<lparr>heaps = [1, 5, 3], lessFunc = (\<lambda>a b. a < b)\<rparr> 1
   \<and> (\<exists>h'. down \<lparr>heaps = [5, 1, 3 :: nat], lessFunc = (\<lambda>a b. a < b)\<rparr> 0 = Inr h'
          \<and> heaps h' ! 0 = 1)"
proof -
  let ?A = "\<lparr>heaps = [5, 3, 1 :: nat], lessFunc = (\<lambda>a b. a < b)\<rparr>"
  let ?B = "\<lparr>heaps = [5, 1, 3 :: nat], lessFunc = (\<lambda>a b. a < b)\<rparr>"
  have a: "2 * 0 + 2 < length (heaps ?A)
        \<and> lessFunc ?A (heaps ?A ! (2 * 0 + 1)) (heaps ?A ! 0)
        \<and> lessFunc ?A (heaps ?A ! (2 * 0 + 2)) (heaps ?A ! 0)
        \<and> lessFunc ?A (heaps ?A ! (2 * 0 + 2)) (heaps ?A ! (2 * 0 + 1))"
    by simp
  have b: "2 * 0 + 2 < length (heaps ?B)
        \<and> lessFunc ?B (heaps ?B ! (2 * 0 + 1)) (heaps ?B ! 0)
        \<and> lessFunc ?B (heaps ?B ! (2 * 0 + 2)) (heaps ?B ! 0)
        \<and> \<not> lessFunc ?B (heaps ?B ! (2 * 0 + 2)) (heaps ?B ! (2 * 0 + 1))"
    by simp
  have sa: "swapped ?A 0 (2 * 0 + 2) = \<lparr>heaps = [1, 3, 5], lessFunc = (\<lambda>a b. a < b)\<rparr>"
    and sb: "swapped ?B 0 (2 * 0 + 1) = \<lparr>heaps = [1, 5, 3], lessFunc = (\<lambda>a b. a < b)\<rparr>"
    and va: "heaps ?A ! (2 * 0 + 2) = 1" and vb: "heaps ?B ! (2 * 0 + 1) = 1"
    and n2: "2 * 0 + 2 = (2 :: nat)" and n1: "2 * 0 + 1 = (1 :: nat)"
    by simp_all
  from down_swap_target [of ?A 0] a
  have "down ?A 0 = down (swapped ?A 0 (2 * 0 + 2)) (2 * 0 + 2)
        \<and> (\<exists>h'. down ?A 0 = Inr h' \<and> heaps h' ! 0 = heaps ?A ! (2 * 0 + 2))"
    by blast
  then have A: "down ?A 0 = down \<lparr>heaps = [1, 3, 5], lessFunc = (\<lambda>a b. a < b)\<rparr> 2
        \<and> (\<exists>h'. down ?A 0 = Inr h' \<and> heaps h' ! 0 = 1)"
    unfolding sa unfolding va unfolding n2 .
  from down_swap_target [of ?B 0] b
  have "down ?B 0 = down (swapped ?B 0 (2 * 0 + 1)) (2 * 0 + 1)
        \<and> (\<exists>h'. down ?B 0 = Inr h' \<and> heaps h' ! 0 = heaps ?B ! (2 * 0 + 1))"
    by blast
  then have B: "down ?B 0 = down \<lparr>heaps = [1, 5, 3], lessFunc = (\<lambda>a b. a < b)\<rparr> 1
        \<and> (\<exists>h'. down ?B 0 = Inr h' \<and> heaps h' ! 0 = 1)"
    unfolding sb unfolding vb unfolding n1 .
  from A B show ?thesis by blast
qed

text \<open>
  C9: sift-up from any valid index returns, without a panic. The function \<open>up\<close> is
  total: its recursion was accepted with the index as the decreasing measure. At each step
  with a positive index the next index is the parent \<open>(index - 1) div 2\<close>, which is
  strictly smaller; the walk stops at index 0, and at an element that does not strictly
  precede its parent.
\<close>

theorem up_terminates:
  "index < length (heaps h) \<Longrightarrow>
     (\<exists>h'. up h index = Inr h')
     \<and> (0 < index \<longrightarrow> (index - 1) div 2 < index)
     \<and> (index = 0 \<longrightarrow> up h index = Inr h)
     \<and> (0 < index \<and> \<not> lessFunc h (heaps h ! index) (heaps h ! ((index - 1) div 2))
          \<longrightarrow> up h index = Inr h)
     \<and> (0 < index \<and> lessFunc h (heaps h ! index) (heaps h ! ((index - 1) div 2))
          \<longrightarrow> up h index
                = up (swapped h index ((index - 1) div 2)) ((index - 1) div 2))"
proof (intro conjI impI)
  assume i: "index < length (heaps h)"
  show "\<exists>h'. up h index = Inr h'" using up_returns [OF i] by blast
  show "(index - 1) div 2 < index" if "0 < index" using that by arith
  show "up h index = Inr h" if "index = 0" using that up_zero by simp
  show "up h index = Inr h"
    if "0 < index \<and> \<not> lessFunc h (heaps h ! index) (heaps h ! ((index - 1) div 2))"
    using that i up_stop [of index h] by simp
  show "up h index = up (swapped h index ((index - 1) div 2)) ((index - 1) div 2)"
    if "0 < index \<and> lessFunc h (heaps h ! index) (heaps h ! ((index - 1) div 2))"
    using that i up_go [of index h] by simp
qed

text \<open>
  Storage 1, 3, 0 under the natural order, from the indices 0, 1 and 2.
\<close>

theorem up_terminates_witness:
  "up \<lparr>heaps = [1, 3, 0 :: nat], lessFunc = (\<lambda>a b. a < b)\<rparr> 0
     = Inr \<lparr>heaps = [1, 3, 0], lessFunc = (\<lambda>a b. a < b)\<rparr>
   \<and> up \<lparr>heaps = [1, 3, 0 :: nat], lessFunc = (\<lambda>a b. a < b)\<rparr> 1
     = Inr \<lparr>heaps = [1, 3, 0], lessFunc = (\<lambda>a b. a < b)\<rparr>
   \<and> up \<lparr>heaps = [1, 3, 0 :: nat], lessFunc = (\<lambda>a b. a < b)\<rparr> 2
     = up \<lparr>heaps = [0, 3, 1], lessFunc = (\<lambda>a b. a < b)\<rparr> 0
   \<and> (\<exists>h'. up \<lparr>heaps = [1, 3, 0 :: nat], lessFunc = (\<lambda>a b. a < b)\<rparr> 2 = Inr h')"
proof -
  let ?H = "\<lparr>heaps = [1, 3, 0 :: nat], lessFunc = (\<lambda>a b. a < b)\<rparr>"
  have l0: "0 < length (heaps ?H)" and l1: "1 < length (heaps ?H)"
    and l2: "2 < length (heaps ?H)" by simp_all
  have p1: "(0::nat) < 1 \<and> \<not> lessFunc ?H (heaps ?H ! 1) (heaps ?H ! ((1 - 1) div 2))"
    by simp
  have p2: "(0::nat) < 2 \<and> lessFunc ?H (heaps ?H ! 2) (heaps ?H ! ((2 - 1) div 2))"
    by simp
  have s: "swapped ?H 2 ((2 - 1) div 2) = \<lparr>heaps = [0, 3, 1], lessFunc = (\<lambda>a b. a < b)\<rparr>"
    by simp
  have d: "(2 - 1) div 2 = (0 :: nat)" by simp
  from up_terminates [OF l0] have "up ?H 0 = Inr ?H" by blast
  moreover from up_terminates [OF l1] p1 have "up ?H 1 = Inr ?H" by blast
  moreover from up_terminates [OF l2] p2
  have "up ?H 2 = up (swapped ?H 2 ((2 - 1) div 2)) ((2 - 1) div 2)" by blast
  then have "up ?H 2 = up \<lparr>heaps = [0, 3, 1], lessFunc = (\<lambda>a b. a < b)\<rparr> 0"
    unfolding s unfolding d .
  moreover from up_terminates [OF l2] have "\<exists>h'. up ?H 2 = Inr h'" by blast
  ultimately show ?thesis by blast
qed

end
